theory Spec2Isabelle
  imports Complex_Main "HOL-Library.AList"
begin

section \<open>Entity model\<close>

text \<open>
  Objects live in a store and are referred to by address, one table per class. A
  reference that may be null is an \<open>option\<close>. A \<open>NodeCommon\<close> reference is
  either a \<open>Node\<close> or a \<open>NodeGroup\<close> (what \<open>instanceof NodeGroup\<close> tests).
\<close>

type_synonym ref = nat

datatype NodeCommon = NodeRef ref | GroupRef ref

text \<open>
  An \<open>Edge\<close> as far as \<open>NodeGroup.ts\<close> reads it: \<open>edge.source\<close> and
  \<open>edge.target\<close> (both \<open>Node\<close>s), \<open>edge.type.iri\<close>, \<open>edge.classes\<close> and the
  value of the getter \<open>edge.isVisible\<close>.
\<close>

record Edge =
  e_source :: ref
  e_target :: ref
  e_type_iri :: string
  e_classes :: "string list"
  e_isVisible :: bool

text \<open>
  A \<open>Node\<close>. \<open>Node.ts\<close> is not among the sources, so the values of its getters
  \<open>identifier\<close> and \<open>isVisible\<close> are fields here.
\<close>

record Node =
  n_identifier :: string
  n_classes :: "string list"
  n_isVisible :: bool
  n_belongsToGroup :: "ref option"
  n_edges :: "Edge list"
  n_lockedForLayouts :: bool
  n_mounted :: bool
  n_onMountPosition :: "(real \<times> real) option"

record NodeGroup =
  g_id :: string
  g_nodes :: "ref list"
  g_visible :: bool

record GroupEdge =
  ge_source :: NodeCommon
  ge_target :: NodeCommon
  ge_type_iri :: string
  ge_classes :: "string list"

text \<open>
  The key of a \<open>GroupEdge\<close> in the cache.

  Modelled from the spec: the getter \<open>GroupEdge.identifier\<close> (\<open>GroupEdge.ts\<close> is not
  among the sources). The spec: "stable identifier computed from (source-id, target-id,
  type)". The model takes the triple itself as the key.
\<close>

type_synonym ge_key = "string \<times> string \<times> string"

record groupEdgesCache_t =
  c_out :: "ge_key \<rightharpoonup> ref"
  c_in :: "ge_key \<rightharpoonup> ref"
  c_in_group :: "ge_key \<rightharpoonup> ref"

text \<open>
  The store. The private field \<open>groupEdgesCache\<close> of a \<open>NodeGroup\<close> is a table of
  its own, keyed by the group's address; \<open>None\<close> is the field not yet initialised.
  \<open>ge_next\<close> is the first address no \<open>GroupEdge\<close> has been given yet.
\<close>

record heap =
  node_at :: "ref \<Rightarrow> Node"
  group_at :: "ref \<Rightarrow> NodeGroup"
  groupEdgesCache :: "ref \<Rightarrow> groupEdgesCache_t option"
  ge_at :: "ref \<Rightarrow> GroupEdge"
  ge_next :: nat

section \<open>NodeGroup\<close>

subsection \<open>Membership\<close>

text \<open>
  What \<open>console.assert\<close> prints when its condition is false: the node, the group it
  was to be added to, and the group it is already in.
\<close>

datatype diagnostic = UnableToAddNode ref ref "ref option"

text \<open>
  \<open>addNode(node, overrideExistingGroup = false)\<close>, with \<open>this\<close> the address of the
  group. The result is what the assertion printed, if anything, and the store.
\<close>

definition addNode :: "heap \<Rightarrow> ref \<Rightarrow> ref \<Rightarrow> bool \<Rightarrow> diagnostic option \<times> heap" where
  "addNode h this node overrideExistingGroup =
     (let b = n_belongsToGroup (node_at h node);
          printed = (if b = None \<or> overrideExistingGroup then None
                     else Some (UnableToAddNode node this b))
      in if b = None \<or> overrideExistingGroup
         then (printed,
               h\<lparr>node_at := (node_at h)(node := (node_at h node)\<lparr>n_belongsToGroup := Some this\<rparr>),
                 group_at := (group_at h)(this := (group_at h this)
                               \<lparr>g_nodes := g_nodes (group_at h this) @ [node]\<rparr>)\<rparr>)
         else (printed, h))"

subsection \<open>Derived classes and visibility\<close>

text \<open>
  A JavaScript \<open>Set\<close> built from an array keeps the first occurrence of each element,
  in order.
\<close>

fun new_Set :: "'a list \<Rightarrow> 'a list" where
  "new_Set [] = []"
| "new_Set (x # xs) = x # new_Set (removeAll x xs)"

text \<open>
  The loop \<open>for (let cls of s) if (!arr.includes(cls)) s.delete(cls)\<close>: deleting the
  element under the iterator does not disturb the iteration of a \<open>Set\<close>.
\<close>

definition retain_included :: "'a list \<Rightarrow> 'a list \<Rightarrow> 'a list" where
  "retain_included arr s = fold (\<lambda>cls acc. if cls \<notin> set arr then removeAll cls acc else acc) s s"

text \<open>
  The getter \<open>classes\<close>. \<open>this.nodes[0]?.classes ?? []\<close> is the empty array when there
  is no first member.
\<close>

definition classes :: "heap \<Rightarrow> ref \<Rightarrow> string list" where
  "classes h this =
     (let classes0 = new_Set (case g_nodes (group_at h this) of
                                [] \<Rightarrow> []
                              | n0 # _ \<Rightarrow> n_classes (node_at h n0))
      in fold (\<lambda>node cs. retain_included (n_classes (node_at h node)) cs)
              (g_nodes (group_at h this)) classes0)"

text \<open>The getter \<open>isVisible\<close> of a group.\<close>

definition isVisible :: "heap \<Rightarrow> ref \<Rightarrow> bool" where
  "isVisible h this =
     (if \<not> g_visible (group_at h this) then False
      else list_ex (\<lambda>node. n_isVisible (node_at h node)) (g_nodes (group_at h this)))"

text \<open>\<open>identifier\<close> and \<open>isVisible\<close> through a \<open>NodeCommon\<close> reference.\<close>

fun nc_identifier :: "heap \<Rightarrow> NodeCommon \<Rightarrow> string" where
  "nc_identifier h (NodeRef n) = n_identifier (node_at h n)"
| "nc_identifier h (GroupRef g) = g_id (group_at h g)"

fun nc_isVisible :: "heap \<Rightarrow> NodeCommon \<Rightarrow> bool" where
  "nc_isVisible h (NodeRef n) = n_isVisible (node_at h n)"
| "nc_isVisible h (GroupRef g) = isVisible h g"

subsection \<open>Aggregated edges\<close>

text \<open>
  \<open>targetTypeGroupEdge\<close> is a \<open>Map\<close> from the other node's identifier to a
  \<open>Map\<close> from the edge type's IRI to a pair of the new \<open>GroupEdge\<close> and the
  \<open>Set\<close> of its classes. A JavaScript \<open>Map\<close> iterates in insertion order, so both are
  association lists: \<open>map_of\<close> is \<open>get\<close>, \<open>AList.update\<close> writes in place or appends.
\<close>

type_synonym typeGroupEdge_t = "(string \<times> (GroupEdge \<times> string list)) list"

type_synonym targetTypeGroupEdge_t = "(string \<times> typeGroupEdge_t) list"

text \<open>
  The body of the inner loop, for one \<open>edge\<close> of a visible member. Each
  \<open>continue\<close> leaves the map as it is.
\<close>

definition edge_step ::
  "heap \<Rightarrow> ref \<Rightarrow> bool \<Rightarrow> bool \<Rightarrow> Edge \<Rightarrow> targetTypeGroupEdge_t \<Rightarrow> targetTypeGroupEdge_t" where
  "edge_step h this outNotIn exclusivelyTargetIsGroup edge m =
     (let targetNode =
            (if outNotIn
             then (case n_belongsToGroup (node_at h (e_target edge)) of
                     Some g \<Rightarrow> GroupRef g
                   | None \<Rightarrow> NodeRef (e_target edge))
             else NodeRef (e_source edge));
          skip =
            (if outNotIn
             then (case targetNode of
                     GroupRef g \<Rightarrow> \<not> n_isVisible (node_at h (e_target edge)) \<or> g = this
                   | NodeRef _ \<Rightarrow> False)
             else (let grouped = (n_belongsToGroup (node_at h (e_source edge)) \<noteq> None)
                   in (grouped \<and> \<not> exclusivelyTargetIsGroup) \<or>
                      (\<not> grouped \<and> exclusivelyTargetIsGroup)))
      in if skip then m
         else if \<not> e_isVisible edge \<or> \<not> nc_isVisible h targetNode then m
         else
           (let typeGroupEdge = (case map_of m (nc_identifier h targetNode) of
                                   None \<Rightarrow> []
                                 | Some tm \<Rightarrow> tm);
                newEdge = (if outNotIn
                           then \<lparr>ge_source = GroupRef this, ge_target = targetNode,
                                 ge_type_iri = e_type_iri edge, ge_classes = []\<rparr>
                           else \<lparr>ge_source = targetNode, ge_target = GroupRef this,
                                 ge_type_iri = e_type_iri edge, ge_classes = []\<rparr>);
                entry = (case map_of typeGroupEdge (e_type_iri edge) of
                           None \<Rightarrow> (newEdge, new_Set (e_classes edge))
                         | Some en \<Rightarrow> en);
                groupEdgeClasses = retain_included (e_classes edge) (snd entry)
            in AList.update (nc_identifier h targetNode)
                 (AList.update (e_type_iri edge) (fst entry, groupEdgeClasses) typeGroupEdge) m))"

text \<open>The two nested loops over the members and their edges.\<close>

definition aggregate :: "heap \<Rightarrow> ref \<Rightarrow> bool \<Rightarrow> bool \<Rightarrow> targetTypeGroupEdge_t" where
  "aggregate h this outNotIn exclusivelyTargetIsGroup =
     fold (\<lambda>sourceNode m.
             if \<not> n_isVisible (node_at h sourceNode) then m
             else fold (edge_step h this outNotIn exclusivelyTargetIsGroup)
                       (n_edges (node_at h sourceNode)) m)
          (g_nodes (group_at h this)) []"

text \<open>
  The loop that fills \<open>edges\<close>: each new \<open>GroupEdge\<close> gets its \<open>classes\<close> from the
  set and is pushed.
\<close>

definition collect_edges :: "targetTypeGroupEdge_t \<Rightarrow> GroupEdge list" where
  "collect_edges m =
     concat (map (\<lambda>(target_id, tm). map (\<lambda>(iri, en). (fst en)\<lparr>ge_classes := snd en\<rparr>) tm) m)"

text \<open>
  The objects made by \<open>new GroupEdge\<close> are reachable only through the local map until
  they are pushed; the model gives them their addresses then, fresh and consecutive.
\<close>

fun alloc :: "heap \<Rightarrow> GroupEdge list \<Rightarrow> ref list \<times> heap" where
  "alloc h [] = ([], h)"
| "alloc h (e # es) =
     (let r = ge_next h;
          res = alloc (h\<lparr>ge_at := (ge_at h)(r := e), ge_next := Suc r\<rparr>) es
      in (r # fst res, snd res))"

text \<open>
  Modelled from the spec: the getter \<open>GroupEdge.identifier\<close>, from the identifiers of
  the source and the target and the type's IRI (see \<open>ge_key\<close>).
\<close>

definition GroupEdge_identifier :: "heap \<Rightarrow> GroupEdge \<Rightarrow> ge_key" where
  "GroupEdge_identifier h e =
     (nc_identifier h (ge_source e), nc_identifier h (ge_target e), ge_type_iri e)"

definition ge_identifier :: "heap \<Rightarrow> ref \<Rightarrow> ge_key" where
  "ge_identifier h r = GroupEdge_identifier h (ge_at h r)"

text \<open>
  \<open>if (cache.hasOwnProperty(edges[i].identifier)) edges[i] = cache[edges[i].identifier]\<close>:
  what stands in \<open>edges[i]\<close> afterwards.
\<close>

definition replace_by_cache :: "heap \<Rightarrow> (ge_key \<rightharpoonup> ref) \<Rightarrow> ref \<Rightarrow> ref" where
  "replace_by_cache h cache e = (case cache (ge_identifier h e) of Some c \<Rightarrow> c | None \<Rightarrow> e)"

text \<open>
  The loop \<open>for (let i in edges)\<close>: each edge is replaced by the cached object if there
  is one, and goes into \<open>newCache\<close> under its identifier.
\<close>

fun use_cache ::
  "heap \<Rightarrow> (ge_key \<rightharpoonup> ref) \<Rightarrow> ref list \<Rightarrow> (ge_key \<rightharpoonup> ref) \<Rightarrow> ref list \<times> (ge_key \<rightharpoonup> ref)" where
  "use_cache h cache [] newCache = ([], newCache)"
| "use_cache h cache (e # es) newCache =
     (let e' = replace_by_cache h cache e;
          res = use_cache h cache es (newCache(ge_identifier h e' \<mapsto> e'))
      in (e' # fst res, snd res))"

text \<open>The bucket of the cache that a direction reads and replaces.\<close>

definition select_bucket :: "bool \<Rightarrow> bool \<Rightarrow> groupEdgesCache_t \<Rightarrow> (ge_key \<rightharpoonup> ref)" where
  "select_bucket outNotIn exclusivelyTargetIsGroup c =
     (if outNotIn then c_out c else if exclusivelyTargetIsGroup then c_in_group c else c_in c)"

definition store_bucket ::
  "bool \<Rightarrow> bool \<Rightarrow> (ge_key \<rightharpoonup> ref) \<Rightarrow> groupEdgesCache_t \<Rightarrow> groupEdgesCache_t" where
  "store_bucket outNotIn exclusivelyTargetIsGroup newCache c =
     (if outNotIn then c\<lparr>c_out := newCache\<rparr>
      else if exclusivelyTargetIsGroup then c\<lparr>c_in_group := newCache\<rparr>
      else c\<lparr>c_in := newCache\<rparr>)"

definition init_cache :: "groupEdgesCache_t option \<Rightarrow> groupEdgesCache_t" where
  "init_cache c = (case c of
                     None \<Rightarrow> \<lparr>c_out = Map.empty, c_in = Map.empty, c_in_group = Map.empty\<rparr>
                   | Some c' \<Rightarrow> c')"

definition getGroupEdgesInDirection :: "heap \<Rightarrow> ref \<Rightarrow> bool \<Rightarrow> bool \<Rightarrow> ref list \<times> heap" where
  "getGroupEdgesInDirection h this outNotIn exclusivelyTargetIsGroup =
     (let c = init_cache (groupEdgesCache h this);
          new_edges = alloc h (collect_edges (aggregate h this outNotIn exclusivelyTargetIsGroup));
          h1 = snd new_edges;
          res = use_cache h1 (select_bucket outNotIn exclusivelyTargetIsGroup c)
                  (fst new_edges) Map.empty
      in (fst res,
          h1\<lparr>groupEdgesCache := (groupEdgesCache h1)
                (this \<mapsto> store_bucket outNotIn exclusivelyTargetIsGroup (snd res) c)\<rparr>))"

text \<open>
  The getters \<open>visibleGroupEdges\<close> and \<open>restOfVisibleGroupEdges\<close>; the array literal
  makes the call for the incoming edges first.
\<close>

definition visibleGroupEdges :: "heap \<Rightarrow> ref \<Rightarrow> ref list \<times> heap" where
  "visibleGroupEdges h this =
     (let incoming = getGroupEdgesInDirection h this False False;
          outgoing = getGroupEdgesInDirection (snd incoming) this True False
      in (fst incoming @ fst outgoing, snd outgoing))"

definition restOfVisibleGroupEdges :: "heap \<Rightarrow> ref \<Rightarrow> ref list \<times> heap" where
  "restOfVisibleGroupEdges h this = getGroupEdgesInDirection h this False True"

text \<open>
  A sequence of further calls of \<open>getGroupEdgesInDirection\<close>, each on some group in some
  direction, with nothing else done to the store.
\<close>

definition further_calls :: "(ref \<times> bool \<times> bool) list \<Rightarrow> heap \<Rightarrow> heap" where
  "further_calls cs h = fold (\<lambda>(g, a, b) s. snd (getGroupEdgesInDirection s g a b)) cs h"

text \<open>The bucket of a group in a store; empty while the cache is not initialised.\<close>

definition bucket :: "heap \<Rightarrow> ref \<Rightarrow> bool \<Rightarrow> bool \<Rightarrow> (ge_key \<rightharpoonup> ref)" where
  "bucket h this outNotIn exclusivelyTargetIsGroup =
     select_bucket outNotIn exclusivelyTargetIsGroup (init_cache (groupEdgesCache h this))"

text \<open>
  The cache of a group is well formed when every entry of its three buckets refers to
  an allocated \<open>GroupEdge\<close> and stands under that object's identifier.
\<close>

definition bucket_wf :: "heap \<Rightarrow> (ge_key \<rightharpoonup> ref) \<Rightarrow> bool" where
  "bucket_wf h b = (\<forall>k r. b k = Some r \<longrightarrow> r < ge_next h \<and> ge_identifier h r = k)"

definition cache_wf :: "heap \<Rightarrow> ref \<Rightarrow> bool" where
  "cache_wf h this =
     (let c = init_cache (groupEdgesCache h this)
      in bucket_wf h (c_out c) \<and> bucket_wf h (c_in c) \<and> bucket_wf h (c_in_group c))"

section \<open>ColaLayout\<close>

subsection \<open>Values and options\<close>

text \<open>
  The options are a JavaScript object: \<open>restoreFromObject\<close> spreads an object of
  type \<open>any\<close> over them, so the model keeps them as a map from property names to
  values. A property that is absent reads as \<open>undefined\<close>.
\<close>

datatype jsval = JUndefined | JNull | JBool bool | JNum real | JStr string

type_synonym js_object = "string \<rightharpoonup> jsval"

text \<open>What \<open>if (v)\<close>, \<open>!v\<close> and \<open>&&\<close> make of a value read from a property.\<close>

fun truthy :: "jsval option \<Rightarrow> bool" where
  "truthy None = False"
| "truthy (Some JUndefined) = False"
| "truthy (Some JNull) = False"
| "truthy (Some (JBool b)) = b"
| "truthy (Some (JNum x)) = (x \<noteq> 0)"
| "truthy (Some (JStr s)) = (s \<noteq> [])"

definition default_options :: js_object where
  "default_options =
     [''doLayoutAfterReposition'' \<mapsto> JBool True,
      ''expansionOnlyThose'' \<mapsto> JBool False,
      ''animate'' \<mapsto> JBool True,
      ''edgeLength'' \<mapsto> JNum 200,
      ''nodeSpacing'' \<mapsto> JNum 10,
      ''groupExpansion'' \<mapsto> JBool True,
      ''expansionGroupLimit'' \<mapsto> JNum 10]"

text \<open>The fields of the interface \<open>ColaLayoutOptions\<close>.\<close>

definition recognized_options :: "string set" where
  "recognized_options =
     {''doLayoutAfterReposition'', ''expansionOnlyThose'', ''animate'', ''nodeSpacing'',
      ''edgeLength'', ''groupExpansion'', ''expansionGroupLimit''}"

subsection \<open>State\<close>

text \<open>
  A layout made by \<open>collection.layout({...})\<close>: the collection (element ids), the
  options it was given and whether it runs. \<open>extraLocked\<close> is a closure over
  \<open>fixed\<close> and \<open>this\<close>; the handle keeps \<open>fixed\<close>.
\<close>

datatype run_state = Created | Running | Stopped

record layout_handle =
  l_collection :: "string list"
  l_animate :: "jsval option"
  l_fixed :: "string set"
  l_nodeSpacing :: "jsval option"
  l_edgeLength :: "jsval option"
  l_state :: run_state

text \<open>
  \<open>compactMode\<close> is declared \<open>cytoscape.Collection | null\<close> and has no initialiser,
  so it starts as \<open>undefined\<close>.
\<close>

datatype 'a nullable = Undefined | Null | Value 'a

text \<open>
  What happens at the engine, one entry per call, in the order of the calls:
  \<open>collection.layout({...})\<close> makes a layout, \<open>run()\<close> and \<open>stop()\<close> are called on
  the layout with the given index, and a layout may stop by itself.
\<close>

datatype engine_call = LayoutCall "string list" | RunCall ref | StopCall ref | Finished ref

text \<open>
  The layout object with its collaborators: every layout the engine has made
  (\<open>layoutAnimation\<close> refers to one by its index) and the calls that reached the engine,
  the ids of \<open>areaManipulator.cy.elements()\<close> and \<open>areaManipulator.cy.nodes()\<close>, the
  three switches of the canvas, and
  \<open>layoutManager.currentLayout.constraintRulesLoaded\<close>.
\<close>

record ColaLayout =
  isActive :: bool
  options :: js_object
  compactMode :: "string list nullable"
  layoutAnimation :: "ref option"
  layouts :: "layout_handle list"
  engine_log :: "engine_call list"
  cy_elements :: "string list"
  cy_nodes :: "string list"
  userPanningEnabled :: bool
  userZoomingEnabled :: bool
  boxSelectionEnabled :: bool
  constraintRulesLoaded :: bool

text \<open>A layout object as the constructor and the field initialisers leave it.\<close>

definition new_ColaLayout :: "string list \<Rightarrow> string list \<Rightarrow> bool \<Rightarrow> ColaLayout" where
  "new_ColaLayout elements nodes loaded =
     \<lparr>isActive = False, options = default_options, compactMode = Undefined,
      layoutAnimation = None, layouts = [], engine_log = [], cy_elements = elements,
      cy_nodes = nodes,
      userPanningEnabled = True, userZoomingEnabled = True, boxSelectionEnabled = True,
      constraintRulesLoaded = loaded\<rparr>"

subsection \<open>Running and stopping the engine\<close>

definition isCompactModeActive :: "ColaLayout \<Rightarrow> bool" where
  "isCompactModeActive st = (case compactMode st of Value c \<Rightarrow> True | _ \<Rightarrow> False)"

definition getCollectionToAnimate :: "ColaLayout \<Rightarrow> string list" where
  "getCollectionToAnimate st = (case compactMode st of Value c \<Rightarrow> c | _ \<Rightarrow> cy_elements st)"

definition set_run_state :: "run_state \<Rightarrow> ref \<Rightarrow> layout_handle list \<Rightarrow> layout_handle list" where
  "set_run_state s r ls = (if r < length ls then ls[r := (ls ! r)\<lparr>l_state := s\<rparr>] else ls)"

definition log_call :: "engine_call \<Rightarrow> ColaLayout \<Rightarrow> ColaLayout" where
  "log_call c st = st\<lparr>engine_log := engine_log st @ [c]\<rparr>"

text \<open>\<open>this.layoutAnimation?.stop()\<close>\<close>

definition stopLayout :: "ColaLayout \<Rightarrow> ColaLayout" where
  "stopLayout st =
     (case layoutAnimation st of
        None \<Rightarrow> st
      | Some r \<Rightarrow> log_call (StopCall r) (st\<lparr>layouts := set_run_state Stopped r (layouts st)\<rparr>))"

text \<open>
  \<open>executeLayout(collection, fixed = undefined)\<close>, statement by statement: the previous
  layout is stopped (\<open>st1\<close>), a new one is made from the collection and the options and
  assigned to \<open>layoutAnimation\<close> (\<open>st2\<close>), and it is run.
\<close>

definition executeLayout :: "ColaLayout \<Rightarrow> string list \<Rightarrow> string set option \<Rightarrow> ColaLayout" where
  "executeLayout st collection fixed_arg =
     (let fixed = (case fixed_arg of None \<Rightarrow> {} | Some f \<Rightarrow> f);
          st1 = stopLayout st;
          r = length (layouts st1);
          st2 = log_call (LayoutCall collection)
                  (st1\<lparr>layoutAnimation := Some r,
                       layouts := layouts st1 @
                         [\<lparr>l_collection = collection, l_animate = options st1 ''animate'',
                           l_fixed = fixed, l_nodeSpacing = options st1 ''nodeSpacing'',
                           l_edgeLength = options st1 ''edgeLength'', l_state = Created\<rparr>]\<rparr>)
      in log_call (RunCall r) (st2\<lparr>layouts := set_run_state Running r (layouts st2)\<rparr>))"

text \<open>
  The node the engine hands to \<open>extraLocked\<close>: \<open>node.id()\<close> and
  \<open>node.scratch("_component").node.lockedForLayouts\<close>.
\<close>

record cy_node =
  cy_id :: string
  cy_lockedForLayouts :: bool

text \<open>
  The closure \<open>extraLocked\<close> of a layout, called by the engine while the layout object
  is in state \<open>st\<close>.
\<close>

definition extraLocked :: "ColaLayout \<Rightarrow> layout_handle \<Rightarrow> cy_node \<Rightarrow> bool" where
  "extraLocked st l node =
     (cy_id node \<in> l_fixed l \<or> (\<not> isCompactModeActive st \<and> cy_lockedForLayouts node))"

subsection \<open>Seeding positions\<close>

text \<open>
  \<open>Math.floor(2 * Math.PI * circNum)\<close>, over the reals.
\<close>

definition floor_2pi :: "nat \<Rightarrow> nat" where
  "floor_2pi circNum = nat \<lfloor>2 * pi * real circNum\<rfloor>"

text \<open>
  The block \<open>if (phi == circumference) {...}\<close> at the head of the loop body of
  \<open>circleLayout\<close>: from \<open>(circNum, phi, circumference, i)\<close> and \<open>nodes.length\<close> to
  the \<open>(circNum, phi, circumference)\<close> the position is computed from.
\<close>

definition next_circle :: "nat \<Rightarrow> nat \<times> nat \<times> nat \<times> nat \<Rightarrow> nat \<times> nat \<times> nat" where
  "next_circle len s =
     (case s of (circNum, phi, circumference, i) \<Rightarrow>
        if phi = circumference
        then (circNum + 1, 0, min (len - i) (floor_2pi (circNum + 1)))
        else (circNum, phi, circumference))"

text \<open>\<open>node.onMountPosition = [...]\<close> with \<open>distance = 100\<close>.\<close>

definition mount_position :: "real \<times> real \<Rightarrow> nat \<times> nat \<times> nat \<Rightarrow> real \<times> real" where
  "mount_position position c =
     (case c of (circNum, phi, circumference) \<Rightarrow>
        (fst position + 100 * real circNum * cos (2 * pi * real phi / real circumference),
         snd position + 100 * real circNum * sin (2 * pi * real phi / real circumference)))"

fun circle_loop ::
  "nat \<Rightarrow> real \<times> real \<Rightarrow> nat \<times> nat \<times> nat \<times> nat \<Rightarrow> ref list \<Rightarrow> heap \<Rightarrow> heap" where
  "circle_loop len position s [] h = h"
| "circle_loop len position s (node # rest) h =
     (case next_circle len s of (circNum, phi, circumference) \<Rightarrow>
        circle_loop len position (circNum, phi + 1, circumference, snd (snd (snd s)) + 1) rest
          (h\<lparr>node_at := (node_at h)(node := (node_at h node)
                \<lparr>n_mounted := True,
                 n_onMountPosition := Some (mount_position position (circNum, phi, circumference))\<rparr>)\<rparr>))"

definition circleLayout :: "heap \<Rightarrow> ref list \<Rightarrow> real \<times> real \<Rightarrow> heap" where
  "circleLayout h nodes position = circle_loop (length nodes) position (0, 0, 0, 0) nodes h"

subsection \<open>Events\<close>

definition activate :: "ColaLayout \<Rightarrow> ColaLayout" where
  "activate st = st\<lparr>isActive := True\<rparr>"

definition setAreaForCompact :: "ColaLayout \<Rightarrow> bool \<Rightarrow> ColaLayout" where
  "setAreaForCompact st isCompact =
     st\<lparr>userPanningEnabled := \<not> isCompact, userZoomingEnabled := \<not> isCompact,
        boxSelectionEnabled := \<not> isCompact\<rparr>"

text \<open>\<open>Collection.union\<close> with one element.\<close>

definition coll_union :: "string list \<Rightarrow> string \<Rightarrow> string list" where
  "coll_union c x = (if x \<in> set c then c else c @ [x])"

datatype js_error = TypeError

text \<open>
  \<open>onCompactMode(nodes, edges)\<close>; the arguments are the ids of the elements of the
  nodes and edges, or \<open>null\<close>. \<open>for (... of null)\<close> throws, and what was assigned
  before stays assigned: the result is the exception, if any, and the state.
\<close>

definition onCompactMode ::
  "ColaLayout \<Rightarrow> string list option \<Rightarrow> string list option \<Rightarrow> js_error option \<times> ColaLayout" where
  "onCompactMode st nodes edges =
     (if nodes = None \<and> edges = None
      then (let st1 = (if isCompactModeActive st then setAreaForCompact (stopLayout st) False
                       else st)
            in (None, st1\<lparr>compactMode := Null\<rparr>))
      else (let st1 = (if compactMode st = Null then setAreaForCompact (stopLayout st) True
                       else st);
                st2 = st1\<lparr>compactMode := Value []\<rparr>
            in case nodes of
                 None \<Rightarrow> (Some TypeError, st2)
               | Some ns \<Rightarrow>
                   (let st3 = st2\<lparr>compactMode := Value (fold (\<lambda>x c. coll_union c x) ns [])\<rparr>
                    in case edges of
                         None \<Rightarrow> (Some TypeError, st3)
                       | Some es \<Rightarrow>
                           (let st4 = st3\<lparr>compactMode :=
                                             Value (fold (\<lambda>x c. coll_union c x) es
                                                      (fold (\<lambda>x c. coll_union c x) ns []))\<rparr>
                            in (None, executeLayout st4 (getCollectionToAnimate st4) None)))))"

definition deactivate :: "ColaLayout \<Rightarrow> ColaLayout" where
  "deactivate st = stopLayout (snd (onCompactMode (st\<lparr>isActive := False\<rparr>) None None))"

definition onDrag :: "ColaLayout \<Rightarrow> bool \<Rightarrow> ColaLayout" where
  "onDrag st isStartNotEnd =
     (if truthy (options st ''doLayoutAfterReposition'') \<and>
         (\<not> isStartNotEnd \<or> (truthy (options st ''animate'') \<and> \<not> constraintRulesLoaded st))
      then executeLayout st (getCollectionToAnimate st) None
      else st)"

definition onLockedChanged :: "ColaLayout \<Rightarrow> ColaLayout" where
  "onLockedChanged st = executeLayout st (getCollectionToAnimate st) None"

definition run :: "ColaLayout \<Rightarrow> ColaLayout" where
  "run st = executeLayout st (getCollectionToAnimate st) None"

text \<open>
  An \<open>Expansion\<close>: its nodes and its parent node. \<open>Node.selfOrGroup\<close> is not among
  the sources; \<open>selfOrGroup_identifier\<close> stands for \<open>node.selfOrGroup.identifier\<close>
  and is a parameter.
\<close>

record Expansion =
  ex_nodes :: "ref list"
  ex_parentNode :: ref

text \<open>
  The set \<open>explicitlyFixed\<close> of \<open>onExpansion\<close>: every id of \<open>cy.nodes()\<close> is added,
  then the expanded nodes and the parent node are deleted.
\<close>

definition explicitlyFixed :: "(ref \<Rightarrow> string) \<Rightarrow> ColaLayout \<Rightarrow> Expansion \<Rightarrow> string set" where
  "explicitlyFixed selfOrGroup_identifier st expansion =
     (if truthy (options st ''expansionOnlyThose'')
      then (let added = fold (\<lambda>node s. insert node s) (cy_nodes st) {};
                without_nodes = fold (\<lambda>node s. s - {selfOrGroup_identifier node})
                                  (ex_nodes expansion) added
            in without_nodes - {selfOrGroup_identifier (ex_parentNode expansion)})
      else {})"

text \<open>
  \<open>onExpansion\<close> from where it resumes after \<open>await Vue.nextTick()\<close>; \<open>st\<close> is the
  state it resumes in.
\<close>

definition onExpansion :: "(ref \<Rightarrow> string) \<Rightarrow> ColaLayout \<Rightarrow> Expansion \<Rightarrow> ColaLayout" where
  "onExpansion selfOrGroup_identifier st expansion =
     (if \<not> isActive st then st
      else executeLayout st (cy_elements st)
             (Some (explicitlyFixed selfOrGroup_identifier st expansion)))"

text \<open>\<open>onGroupBroken\<close> from where it resumes after \<open>await Vue.nextTick()\<close>.\<close>

definition onGroupBroken :: "ColaLayout \<Rightarrow> ColaLayout" where
  "onGroupBroken st = (if \<not> isActive st then st else executeLayout st (cy_elements st) None)"

subsection \<open>Saving and restoring the options\<close>

text \<open>\<open>{...this.options, ...object}\<close>: the properties of \<open>object\<close> win.\<close>

definition restoreFromObject :: "ColaLayout \<Rightarrow> js_object \<Rightarrow> ColaLayout" where
  "restoreFromObject st object = st\<lparr>options := options st ++ object\<rparr>"

definition saveToObject :: "ColaLayout \<Rightarrow> js_object" where
  "saveToObject st = options st"

subsection \<open>The life of a layout object\<close>

text \<open>
  What can happen to a layout object: its methods are called, a layout stops by itself,
  or the graph and the canvas change.
\<close>

datatype event =
    Activate
  | Deactivate
  | OnDrag bool
  | OnLockedChanged
  | Run
  | OnCompactMode "string list option" "string list option"
  | OnExpansion "ref \<Rightarrow> string" Expansion
  | OnGroupBroken
  | RestoreFromObject js_object
  | LayoutStopped ref
  | GraphChanged "string list" "string list"
  | ConstraintRulesLoaded bool

fun step :: "event \<Rightarrow> ColaLayout \<Rightarrow> ColaLayout" where
  "step Activate st = activate st"
| "step Deactivate st = deactivate st"
| "step (OnDrag isStartNotEnd) st = onDrag st isStartNotEnd"
| "step OnLockedChanged st = onLockedChanged st"
| "step Run st = run st"
| "step (OnCompactMode nodes edges) st = snd (onCompactMode st nodes edges)"
| "step (OnExpansion f expansion) st = onExpansion f st expansion"
| "step OnGroupBroken st = onGroupBroken st"
| "step (RestoreFromObject object) st = restoreFromObject st object"
| "step (LayoutStopped r) st =
     log_call (Finished r) (st\<lparr>layouts := set_run_state Stopped r (layouts st)\<rparr>)"
| "step (GraphChanged elements nodes) st = st\<lparr>cy_elements := elements, cy_nodes := nodes\<rparr>"
| "step (ConstraintRulesLoaded b) st = st\<lparr>constraintRulesLoaded := b\<rparr>"

text \<open>
  What a call does to the layouts of the engine, as far as running goes, and the run
  states after a sequence of calls from an engine without layouts.
\<close>

fun apply_call :: "engine_call \<Rightarrow> run_state list \<Rightarrow> run_state list" where
  "apply_call (LayoutCall c) xs = xs @ [Created]"
| "apply_call (RunCall r) xs = xs[r := Running]"
| "apply_call (StopCall r) xs = xs[r := Stopped]"
| "apply_call (Finished r) xs = xs[r := Stopped]"

definition replay :: "engine_call list \<Rightarrow> run_state list" where
  "replay cs = fold apply_call cs []"

section \<open>Notions used in the proofs\<close>

subsection \<open>The local map of the aggregation\<close>

text \<open>
  The identifier of the \<open>GroupEdge\<close> that a pass in direction \<open>outNotIn\<close> of the
  group with id \<open>gid\<close> makes for the other node \<open>tid\<close> and the edge type \<open>iri\<close>.
\<close>

definition mk_key :: "bool \<Rightarrow> string \<Rightarrow> string \<Rightarrow> string \<Rightarrow> ge_key" where
  "mk_key outNotIn gid tid iri = (if outNotIn then (gid, tid, iri) else (tid, gid, iri))"

text \<open>
  What holds of \<open>targetTypeGroupEdge\<close> throughout the loops: no key occurs twice, in
  the outer map or in an inner one, and the \<open>GroupEdge\<close> under the keys \<open>tid\<close> and
  \<open>iri\<close> has the identifier made from them.
\<close>

definition tm_inv :: "heap \<Rightarrow> ref \<Rightarrow> bool \<Rightarrow> targetTypeGroupEdge_t \<Rightarrow> bool" where
  "tm_inv h this outNotIn m =
     (distinct (map fst m) \<and>
      (\<forall>tid tm. map_of m tid = Some tm \<longrightarrow>
         distinct (map fst tm) \<and>
         (\<forall>iri en. map_of tm iri = Some en \<longrightarrow>
            GroupEdge_identifier h (fst en) = mk_key outNotIn (g_id (group_at h this)) tid iri)))"

text \<open>Two directions read and replace the same bucket of the cache.\<close>

definition same_bucket :: "bool \<Rightarrow> bool \<Rightarrow> bool \<Rightarrow> bool \<Rightarrow> bool" where
  "same_bucket a b a' b' = (a = a' \<and> (a \<or> b = b'))"

text \<open>The identifiers of the edges a pass makes, in the order of \<open>edges\<close>.\<close>

definition new_keys :: "heap \<Rightarrow> ref \<Rightarrow> bool \<Rightarrow> bool \<Rightarrow> ge_key list" where
  "new_keys h this a b = map (GroupEdge_identifier h) (collect_edges (aggregate h this a b))"

text \<open>
  The cache of the group is well formed and its bucket for the direction holds the objects
  \<open>rs\<close> under the identifiers a pass in that direction makes.
\<close>

definition cached :: "heap \<Rightarrow> ref \<Rightarrow> bool \<Rightarrow> bool \<Rightarrow> ref list \<Rightarrow> bool" where
  "cached h this a b rs =
     (cache_wf h this \<and> length rs = length (new_keys h this a b) \<and>
      (\<forall>i < length rs. bucket h this a b (new_keys h this a b ! i) = Some (rs ! i)))"

text \<open>
  The other node of an edge that the inner loop does not skip: the conditions of the three
  \<open>continue\<close> statements, in their order.
\<close>

definition edge_target :: "heap \<Rightarrow> ref \<Rightarrow> bool \<Rightarrow> bool \<Rightarrow> Edge \<Rightarrow> NodeCommon option" where
  "edge_target h this outNotIn exclusivelyTargetIsGroup edge =
     (let targetNode =
            (if outNotIn
             then (case n_belongsToGroup (node_at h (e_target edge)) of
                     Some g \<Rightarrow> GroupRef g
                   | None \<Rightarrow> NodeRef (e_target edge))
             else NodeRef (e_source edge));
          skip =
            (if outNotIn
             then (case targetNode of
                     GroupRef g \<Rightarrow> \<not> n_isVisible (node_at h (e_target edge)) \<or> g = this
                   | NodeRef _ \<Rightarrow> False)
             else (let grouped = (n_belongsToGroup (node_at h (e_source edge)) \<noteq> None)
                   in (grouped \<and> \<not> exclusivelyTargetIsGroup) \<or>
                      (\<not> grouped \<and> exclusivelyTargetIsGroup)))
      in if skip then None
         else if \<not> e_isVisible edge \<or> \<not> nc_isVisible h targetNode then None
         else Some targetNode)"

text \<open>
  An edge is summarized under the other node's identifier \<open>tid\<close> and the type \<open>iri\<close>
  when the loop does not skip it, its other node has that identifier and it has that type.
\<close>

definition summarized :: "heap \<Rightarrow> ref \<Rightarrow> bool \<Rightarrow> bool \<Rightarrow> string \<Rightarrow> string \<Rightarrow> Edge \<Rightarrow> bool" where
  "summarized h this outNotIn exclusivelyTargetIsGroup tid iri edge =
     ((case edge_target h this outNotIn exclusivelyTargetIsGroup edge of
         None \<Rightarrow> False
       | Some t \<Rightarrow> nc_identifier h t = tid) \<and>
      e_type_iri edge = iri)"

text \<open>The edges the loops visit: those of the visible members, in order.\<close>

definition member_edges :: "heap \<Rightarrow> ref \<Rightarrow> Edge list" where
  "member_edges h this =
     concat (map (\<lambda>n. n_edges (node_at h n))
               (filter (\<lambda>n. n_isVisible (node_at h n)) (g_nodes (group_at h this))))"

text \<open>The entry of the local map under two keys.\<close>

definition lookup2 :: "targetTypeGroupEdge_t \<Rightarrow> string \<Rightarrow> string \<Rightarrow> (GroupEdge \<times> string list) option" where
  "lookup2 m tid iri = (case map_of m tid of None \<Rightarrow> None | Some tm \<Rightarrow> map_of tm iri)"

text \<open>
  What holds of the local map after the edges \<open>es\<close>: it has an entry under \<open>tid\<close> and
  \<open>iri\<close> exactly when one of the edges is summarized there, and the classes of the entry
  are those that all such edges have.
\<close>

definition classes_inv ::
  "heap \<Rightarrow> ref \<Rightarrow> bool \<Rightarrow> bool \<Rightarrow> Edge list \<Rightarrow> targetTypeGroupEdge_t \<Rightarrow> bool" where
  "classes_inv h this a b es m =
     (\<forall>tid iri.
        case lookup2 m tid iri of
          None \<Rightarrow> \<forall>e \<in> set es. \<not> summarized h this a b tid iri e
        | Some en \<Rightarrow>
            (\<exists>e \<in> set es. summarized h this a b tid iri e) \<and>
            set (snd en) = (\<Inter>e \<in> {e \<in> set es. summarized h this a b tid iri e}. set (e_classes e)))"

subsection \<open>The circles of the seeding\<close>

text \<open>
  The index of the first node on circle \<open>k\<close>: the circles before it are full, circle
  \<open>m\<close> holding \<open>floor_2pi m\<close> nodes (none for \<open>m = 0\<close>).
\<close>

primrec ring_start :: "nat \<Rightarrow> nat" where
  "ring_start 0 = 0"
| "ring_start (Suc k) = ring_start k + floor_2pi k"

text \<open>
  What holds of the loop variables of \<open>circleLayout\<close> before each iteration.
\<close>

definition circle_inv :: "nat \<Rightarrow> nat \<times> nat \<times> nat \<times> nat \<Rightarrow> bool" where
  "circle_inv len s =
     (case s of (circNum, phi, circumference, i) \<Rightarrow>
        i = ring_start circNum + phi \<and>
        circumference = min (len - ring_start circNum) (floor_2pi circNum) \<and>
        phi \<le> circumference)"

text \<open>
  Node \<open>j\<close> of \<open>len\<close> is the \<open>p\<close>-th of the \<open>n\<close> nodes on circle \<open>k\<close>.
\<close>

definition on_ring :: "nat \<Rightarrow> nat \<Rightarrow> nat \<times> nat \<times> nat \<Rightarrow> bool" where
  "on_ring len j c =
     (case c of (k, p, n) \<Rightarrow>
        1 \<le> k \<and> j = ring_start k + p \<and> n = min (len - ring_start k) (floor_2pi k) \<and> p < n)"

subsection \<open>A small graph\<close>

text \<open>
  The graph the concrete evaluations use: node \<open>0\<close> (\<open>m\<close>) is the one member of
  group \<open>0\<close> and has the given edges, every other node (\<open>x\<close>) is visible and in no
  group, and no group has used its cache yet. \<open>example_edge\<close> is a visible edge from node
  \<open>0\<close> to node \<open>1\<close>.
\<close>

definition example_edge :: "string \<Rightarrow> string list \<Rightarrow> Edge" where
  "example_edge iri cs =
     \<lparr>e_source = 0, e_target = 1, e_type_iri = iri, e_classes = cs, e_isVisible = True\<rparr>"

definition example_node :: "string \<Rightarrow> ref option \<Rightarrow> Edge list \<Rightarrow> Node" where
  "example_node ident grp es =
     \<lparr>n_identifier = ident, n_classes = [], n_isVisible = True, n_belongsToGroup = grp,
      n_edges = es, n_lockedForLayouts = False, n_mounted = True, n_onMountPosition = None\<rparr>"

definition example_heap :: "Edge list \<Rightarrow> heap" where
  "example_heap es =
     \<lparr>node_at = (\<lambda>r. if r = 0 then example_node ''m'' (Some 0) es
                      else example_node ''x'' None []),
      group_at = (\<lambda>_. \<lparr>g_id = ''__node_group/0'', g_nodes = [0], g_visible = True\<rparr>),
      groupEdgesCache = (\<lambda>_. None),
      ge_at = (\<lambda>_. \<lparr>ge_source = NodeRef 0, ge_target = NodeRef 0, ge_type_iri = [],
                      ge_classes = []\<rparr>),
      ge_next = 0\<rparr>"

text \<open>A visible edge from \<open>x\<close> (node \<open>1\<close>) to the member.\<close>

definition example_incoming :: Edge where
  "example_incoming =
     \<lparr>e_source = 1, e_target = 0, e_type_iri = ''T'', e_classes = [''a''], e_isVisible = True\<rparr>"

text \<open>
  A store in which no node is in a group and every group is empty and visible.
\<close>

definition fresh_heap :: heap where
  "fresh_heap =
     \<lparr>node_at = (\<lambda>_. example_node ''x'' None []),
      group_at = (\<lambda>_. \<lparr>g_id = ''__node_group/0'', g_nodes = [], g_visible = True\<rparr>),
      groupEdgesCache = (\<lambda>_. None),
      ge_at = (\<lambda>_. \<lparr>ge_source = NodeRef 0, ge_target = NodeRef 0, ge_type_iri = [],
                      ge_classes = []\<rparr>),
      ge_next = 0\<rparr>"

subsection \<open>A small layout object\<close>

text \<open>
  An activated layout object over a canvas with five nodes and an edge, restored with
  \<open>expansionOnlyThose\<close> set; and the identifiers \<open>node.selfOrGroup.identifier\<close> of
  three nodes.
\<close>

definition example_layout :: ColaLayout where
  "example_layout =
     restoreFromObject
       (activate (new_ColaLayout [''anchor'', ''n1'', ''n2'', ''new1'', ''new2'', ''e1'']
                    [''anchor'', ''n1'', ''n2'', ''new1'', ''new2''] False))
       [''expansionOnlyThose'' \<mapsto> JBool True]"

definition example_selfOrGroup :: "ref \<Rightarrow> string" where
  "example_selfOrGroup r = (if r = 0 then ''anchor'' else if r = 1 then ''new1'' else ''new2'')"

subsection \<open>The layouts of the engine\<close>

text \<open>
  What holds of a layout object throughout its life: \<open>layoutAnimation\<close> is undefined
  while no layout has been made and refers to the last one made otherwise, and no layout
  before the last one runs.
\<close>

definition layout_inv :: "ColaLayout \<Rightarrow> bool" where
  "layout_inv st =
     ((case layoutAnimation st of
         None \<Rightarrow> layouts st = []
       | Some r \<Rightarrow> Suc r = length (layouts st)) \<and>
      (\<forall>l \<in> set (butlast (layouts st)). l_state l \<noteq> Running))"

text \<open>At most one of the run states is \<open>Running\<close>.\<close>

definition quiet :: "run_state list \<Rightarrow> bool" where
  "quiet xs = (length (filter (\<lambda>s. s = Running) xs) \<le> 1)"

text \<open>
  The log and the layouts agree, and after every call of the log at most one layout runs.
\<close>

definition log_inv :: "ColaLayout \<Rightarrow> bool" where
  "log_inv st =
     (layout_inv st \<and>
      map l_state (layouts st) = replay (engine_log st) \<and>
      (\<forall>n. quiet (replay (take n (engine_log st)))))"

section \<open>Verification of NodeGroup\<close>

subsection \<open>Membership\<close>

text \<open>
  What \<open>addNode\<close> does with a node that is a member of group \<open>a\<close>. Without the
  override flag it prints the diagnostic of the failed assertion and leaves the store as
  it is. With the override flag it prints nothing, the node's \<open>belongsToGroup\<close> becomes
  \<open>b\<close> and the node is appended to the members of \<open>b\<close>; no other group is written.
\<close>

lemma addNode_second_group:
  assumes "n_belongsToGroup (node_at h node) = Some a"
  shows "addNode h b node False = (Some (UnableToAddNode node b (Some a)), h) \<and>
         fst (addNode h b node True) = None \<and>
         n_belongsToGroup (node_at (snd (addNode h b node True)) node) = Some b \<and>
         g_nodes (group_at (snd (addNode h b node True)) b) = g_nodes (group_at h b) @ [node] \<and>
         (\<forall>g. g \<noteq> b \<longrightarrow> group_at (snd (addNode h b node True)) g = group_at h g)"
  using assms by (simp add: addNode_def)

text \<open>
  Claim C3, on the code. Node \<open>5\<close> is added to group \<open>0\<close>. Adding it to group \<open>1\<close>
  without the override flag prints the diagnostic and changes nothing. Adding it to group
  \<open>1\<close> with the override flag makes its \<open>belongsToGroup\<close> group \<open>1\<close> and group \<open>1\<close>
  lists it, but group \<open>0\<close> still lists it too: the node is in the member lists of two
  groups, against the comment on \<open>nodes\<close> ("Each node must be maximally in one group and
  the relation should be bidirectional").
\<close>

theorem addNode_override_two_groups:
  "addNode (snd (addNode fresh_heap 0 5 False)) 1 5 False =
     (Some (UnableToAddNode 5 1 (Some 0)), snd (addNode fresh_heap 0 5 False)) \<and>
   n_belongsToGroup (node_at (snd (addNode (snd (addNode fresh_heap 0 5 False)) 1 5 True)) 5) = Some 1 \<and>
   g_nodes (group_at (snd (addNode (snd (addNode fresh_heap 0 5 False)) 1 5 True)) 1) = [5] \<and>
   g_nodes (group_at (snd (addNode (snd (addNode fresh_heap 0 5 False)) 1 5 True)) 0) = [5]"
  by (simp add: addNode_def fresh_heap_def example_node_def Let_def)

subsection \<open>A group without members\<close>

lemma retain_included_Nil: "retain_included arr [] = []"
  by (simp add: retain_included_def)

text \<open>
  Claim C10. For a group whose member list is empty the getter \<open>classes\<close> returns the
  empty list (the model of \<open>this.nodes[0]?.classes ?? []\<close> has no failing branch), and
  the getter \<open>isVisible\<close> returns false, whatever the stored flag \<open>visible\<close> is.
\<close>

theorem empty_group_getters:
  assumes "g_nodes (group_at h this) = []"
  shows "classes h this = [] \<and> \<not> isVisible h this"
  using assms by (simp add: classes_def isVisible_def)

text \<open>A witness for C10: group \<open>3\<close> of the store without members, stored as visible.\<close>

theorem empty_group_getters_witness:
  "g_nodes (group_at fresh_heap 3) = [] \<and> classes fresh_heap 3 = [] \<and> \<not> isVisible fresh_heap 3"
proof -
  have e: "g_nodes (group_at fresh_heap 3) = []" by (simp add: fresh_heap_def)
  from empty_group_getters [OF e] e show ?thesis by simp
qed

subsection \<open>Allocation\<close>

lemma alloc_fst: "fst (alloc h es) = [ge_next h ..< ge_next h + length es]"
proof (induction es arbitrary: h)
  case Nil
  then show ?case by simp
next
  case (Cons e es)
  have "[ge_next h ..< ge_next h + length (e # es)] = ge_next h # [Suc (ge_next h) ..< Suc (ge_next h) + length es]"
    by (subst upt_rec) simp
  then show ?case using Cons.IH [of "h\<lparr>ge_at := (ge_at h)(ge_next h := e), ge_next := Suc (ge_next h)\<rparr>"]
    by (simp add: Let_def)
qed

lemma alloc_node_at: "node_at (snd (alloc h es)) = node_at h"
  by (induction es arbitrary: h) (simp_all add: Let_def)

lemma alloc_group_at: "group_at (snd (alloc h es)) = group_at h"
  by (induction es arbitrary: h) (simp_all add: Let_def)

lemma alloc_groupEdgesCache: "groupEdgesCache (snd (alloc h es)) = groupEdgesCache h"
  by (induction es arbitrary: h) (simp_all add: Let_def)

lemma alloc_ge_next: "ge_next (snd (alloc h es)) = ge_next h + length es"
  by (induction es arbitrary: h) (simp_all add: Let_def)

lemma alloc_ge_at_old: "r < ge_next h \<Longrightarrow> ge_at (snd (alloc h es)) r = ge_at h r"
  by (induction es arbitrary: h) (simp_all add: Let_def)

lemma alloc_ge_at_new: "i < length es \<Longrightarrow> ge_at (snd (alloc h es)) (ge_next h + i) = es ! i"
proof (induction es arbitrary: h i)
  case Nil
  then show ?case by simp
next
  case (Cons e es)
  show ?case
  proof (cases i)
    case 0
    have "ge_at (snd (alloc (h\<lparr>ge_at := (ge_at h)(ge_next h := e), ge_next := Suc (ge_next h)\<rparr>) es)) (ge_next h) = e"
      by (subst alloc_ge_at_old) simp_all
    with 0 show ?thesis by (simp add: Let_def)
  next
    case (Suc j)
    with Cons.prems have "j < length es" by simp
    from Cons.IH [OF this, of "h\<lparr>ge_at := (ge_at h)(ge_next h := e), ge_next := Suc (ge_next h)\<rparr>"]
    show ?thesis using Suc by (simp add: Let_def)
  qed
qed

lemma alloc_length: "length (fst (alloc h es)) = length es"
  by (simp add: alloc_fst)

lemma alloc_nth: "i < length es \<Longrightarrow> fst (alloc h es) ! i = ge_next h + i"
  by (simp add: alloc_fst)

subsection \<open>The pass reads nodes and groups only\<close>

lemma nc_identifier_cong:
  "node_at h' = node_at h \<Longrightarrow> group_at h' = group_at h \<Longrightarrow> nc_identifier h' x = nc_identifier h x"
  by (cases x) simp_all

lemma nc_isVisible_cong:
  "node_at h' = node_at h \<Longrightarrow> group_at h' = group_at h \<Longrightarrow> nc_isVisible h' x = nc_isVisible h x"
  by (cases x) (simp_all add: isVisible_def)

lemma identifier_cong:
  assumes "node_at h' = node_at h" and "group_at h' = group_at h"
  shows "GroupEdge_identifier h' e = GroupEdge_identifier h e"
  by (simp only: GroupEdge_identifier_def nc_identifier_cong [OF assms])

lemma edge_step_cong:
  assumes "node_at h' = node_at h" and "group_at h' = group_at h"
  shows "edge_step h' this a b e m = edge_step h this a b e m"
  unfolding edge_step_def
  by (simp only: assms nc_identifier_cong [OF assms] nc_isVisible_cong [OF assms])

lemma aggregate_cong:
  assumes "node_at h' = node_at h" and "group_at h' = group_at h"
  shows "aggregate h' this a b = aggregate h this a b"
proof -
  have "edge_step h' this a b = edge_step h this a b"
    by (intro ext) (rule edge_step_cong [OF assms])
  then show ?thesis by (simp only: aggregate_def assms)
qed

lemma ge_identifier_cache_update:
  "ge_identifier (h\<lparr>groupEdgesCache := c\<rparr>) r = ge_identifier h r"
proof -
  have "GroupEdge_identifier (h\<lparr>groupEdgesCache := c\<rparr>) e = GroupEdge_identifier h e" for e
    by (rule identifier_cong) simp_all
  then show ?thesis by (simp add: ge_identifier_def)
qed

lemma alloc_keys:
  "map (ge_identifier (snd (alloc h es))) (fst (alloc h es)) = map (GroupEdge_identifier h) es"
proof (rule nth_equalityI)
  show "length (map (ge_identifier (snd (alloc h es))) (fst (alloc h es))) =
        length (map (GroupEdge_identifier h) es)"
    by (simp add: alloc_length)
next
  fix i
  assume "i < length (map (ge_identifier (snd (alloc h es))) (fst (alloc h es)))"
  then have i: "i < length es" by (simp add: alloc_length)
  have "GroupEdge_identifier (snd (alloc h es)) (es ! i) = GroupEdge_identifier h (es ! i)"
    by (rule identifier_cong) (simp_all add: alloc_node_at alloc_group_at)
  then show "map (ge_identifier (snd (alloc h es))) (fst (alloc h es)) ! i =
             map (GroupEdge_identifier h) es ! i"
    using i by (simp add: alloc_length alloc_nth ge_identifier_def alloc_ge_at_new)
qed

lemma alloc_old_key:
  assumes "r < ge_next h"
  shows "ge_identifier (snd (alloc h es)) r = ge_identifier h r"
proof -
  have "GroupEdge_identifier (snd (alloc h es)) (ge_at h r) = GroupEdge_identifier h (ge_at h r)"
    by (rule identifier_cong) (simp_all add: alloc_node_at alloc_group_at)
  then show ?thesis
    using assms by (simp add: ge_identifier_def alloc_ge_at_old)
qed

subsection \<open>The new edges have distinct identifiers\<close>

lemma mk_key_inj: "mk_key a g t i = mk_key a g t' i' \<longleftrightarrow> t = t' \<and> i = i'"
  by (auto simp: mk_key_def)

lemma tm_inv_Nil: "tm_inv h this a []"
  by (simp add: tm_inv_def)

lemma tm_inv_update:
  assumes inv: "tm_inv h this a m"
    and new: "GroupEdge_identifier h newEdge = mk_key a (g_id (group_at h this)) tid iri"
    and tm0: "tm0 = (case map_of m tid of None \<Rightarrow> [] | Some tm \<Rightarrow> tm)"
    and en: "en = (case map_of tm0 iri of None \<Rightarrow> (newEdge, s) | Some x \<Rightarrow> x)"
  shows "tm_inv h this a (AList.update tid (AList.update iri (fst en, c) tm0) m)"
proof -
  from inv have D: "distinct (map fst m)"
    unfolding tm_inv_def by blast
  from inv have I: "distinct (map fst tm)" if "map_of m t = Some tm" for t tm
    using that unfolding tm_inv_def by blast
  from inv have K: "GroupEdge_identifier h (fst x) = mk_key a (g_id (group_at h this)) t i"
    if "map_of m t = Some tm" and "map_of tm i = Some x" for t tm i x
    using that unfolding tm_inv_def by blast
  have d0: "distinct (map fst tm0)"
  proof (cases "map_of m tid")
    case None
    then show ?thesis using tm0 by simp
  next
    case (Some tm)
    then show ?thesis using tm0 I [OF Some] by simp
  qed
  have k0: "GroupEdge_identifier h (fst x) = mk_key a (g_id (group_at h this)) tid iri'"
    if "map_of tm0 iri' = Some x" for iri' x
  proof (cases "map_of m tid")
    case None
    then show ?thesis using tm0 that by simp
  next
    case (Some tm)
    then have "tm0 = tm" using tm0 by simp
    with that K [OF Some] show ?thesis by blast
  qed
  have ken: "GroupEdge_identifier h (fst en) = mk_key a (g_id (group_at h this)) tid iri"
  proof (cases "map_of tm0 iri")
    case None
    then show ?thesis using en new by simp
  next
    case (Some x)
    then show ?thesis using en k0 [OF Some] by simp
  qed
  let ?tm' = "AList.update iri (fst en, c) tm0"
  let ?m' = "AList.update tid ?tm' m"
  have M: "map_of ?m' = (map_of m)(tid \<mapsto> ?tm')"
    by (rule update_conv')
  have T: "map_of ?tm' = (map_of tm0)(iri \<mapsto> (fst en, c))"
    by (rule update_conv')
  show ?thesis
    unfolding tm_inv_def
  proof (intro conjI allI impI)
    show "distinct (map fst ?m')"
      using D by (rule distinct_update)
  next
    fix t tm
    assume a: "map_of ?m' t = Some tm"
    show "distinct (map fst tm)"
    proof (cases "t = tid")
      case True
      with a M have "tm = ?tm'" by simp
      then show ?thesis using d0 by (simp add: distinct_update)
    next
      case False
      with a M have "map_of m t = Some tm" by simp
      then show ?thesis by (rule I)
    qed
  next
    fix t tm i x
    assume a: "map_of ?m' t = Some tm" and b: "map_of tm i = Some x"
    show "GroupEdge_identifier h (fst x) = mk_key a (g_id (group_at h this)) t i"
    proof (cases "t = tid")
      case True
      with a M have tm: "tm = ?tm'" by simp
      show ?thesis
      proof (cases "i = iri")
        case True
        with b tm T have "x = (fst en, c)" by simp
        then show ?thesis using ken True \<open>t = tid\<close> by simp
      next
        case False
        with b tm T have "map_of tm0 i = Some x" by simp
        then show ?thesis using k0 \<open>t = tid\<close> by simp
      qed
    next
      case False
      with a M have "map_of m t = Some tm" by simp
      then show ?thesis using b by (rule K)
    qed
  qed
qed

lemma edge_step_inv:
  assumes "tm_inv h this a m"
  shows "tm_inv h this a (edge_step h this a b e m)"
proof -
  have new: "GroupEdge_identifier h
      (if a then \<lparr>ge_source = GroupRef this, ge_target = t, ge_type_iri = i, ge_classes = []\<rparr>
       else \<lparr>ge_source = t, ge_target = GroupRef this, ge_type_iri = i, ge_classes = []\<rparr>) =
      mk_key a (g_id (group_at h this)) (nc_identifier h t) i" for t i
    by (simp add: GroupEdge_identifier_def mk_key_def)
  show ?thesis
    unfolding edge_step_def Let_def
    by (intro tm_inv_update [OF assms new refl refl] assms | simp only: if_split | rule conjI impI)+
qed

lemma fold_invariant: "(\<And>x s. P s \<Longrightarrow> P (f x s)) \<Longrightarrow> P s \<Longrightarrow> P (fold f xs s)"
  by (induction xs arbitrary: s) simp_all

lemma aggregate_inv: "tm_inv h this a (aggregate h this a b)"
  unfolding aggregate_def
  by (rule fold_invariant) (auto intro: fold_invariant edge_step_inv tm_inv_Nil)

lemma identifier_classes_update:
  "GroupEdge_identifier h (e\<lparr>ge_classes := c\<rparr>) = GroupEdge_identifier h e"
  by (simp add: GroupEdge_identifier_def)

lemma collect_edges_Cons:
  "collect_edges ((tid, tm) # m) =
     map (\<lambda>(iri, en). (fst en)\<lparr>ge_classes := snd en\<rparr>) tm @ collect_edges m"
  by (simp add: collect_edges_def)

lemma collect_edges_keys:
  assumes "tm_inv h this a m"
  shows "distinct (map (GroupEdge_identifier h) (collect_edges m))"
proof -
  let ?g = "g_id (group_at h this)"
  let ?K = "GroupEdge_identifier h"
  have "distinct (map fst m) \<Longrightarrow>
        (\<And>tid tm. (tid, tm) \<in> set m \<Longrightarrow> distinct (map fst tm)) \<Longrightarrow>
        (\<And>tid tm iri en. (tid, tm) \<in> set m \<Longrightarrow> (iri, en) \<in> set tm \<Longrightarrow>
            ?K (fst en) = mk_key a ?g tid iri) \<Longrightarrow>
        distinct (map ?K (collect_edges m)) \<and>
        (\<forall>k \<in> set (map ?K (collect_edges m)). \<exists>tid iri. tid \<in> fst ` set m \<and> k = mk_key a ?g tid iri)"
  proof (induction m)
    case Nil
    then show ?case by (simp add: collect_edges_def)
  next
    case (Cons p m)
    obtain tid tm where p: "p = (tid, tm)" by (cases p)
    have dtm: "distinct (map fst tm)"
      using Cons.prems(2) [of tid tm] p by simp
    have ktm: "?K (fst en) = mk_key a ?g tid iri" if "(iri, en) \<in> set tm" for iri en
      using Cons.prems(3) [of tid tm iri en] p that by simp
    have head: "map ?K (map (\<lambda>(iri, en). (fst en)\<lparr>ge_classes := snd en\<rparr>) tm) =
                map (\<lambda>q. mk_key a ?g tid (fst q)) tm"
      using ktm by (auto simp: identifier_classes_update)
    have dhead: "distinct (map (\<lambda>q. mk_key a ?g tid (fst q)) tm)"
      using dtm by (simp add: distinct_map inj_on_def mk_key_inj)
    have IH: "distinct (map ?K (collect_edges m)) \<and>
        (\<forall>k \<in> set (map ?K (collect_edges m)). \<exists>tid iri. tid \<in> fst ` set m \<and> k = mk_key a ?g tid iri)"
    proof (rule Cons.IH)
      show "distinct (map fst m)" using Cons.prems(1) by simp
      show "distinct (map fst tm')" if "(t, tm') \<in> set m" for t tm'
        using Cons.prems(2) [of t tm'] that by simp
      show "?K (fst en) = mk_key a ?g t iri" if "(t, tm') \<in> set m" and "(iri, en) \<in> set tm'" for t tm' iri en
        using Cons.prems(3) [of t tm' iri en] that by simp
    qed
    have tid_fresh: "tid \<notin> fst ` set m"
      using Cons.prems(1) p by simp
    have disj: "set (map (\<lambda>q. mk_key a ?g tid (fst q)) tm) \<inter> set (map ?K (collect_edges m)) = {}"
    proof (rule ccontr)
      assume "\<not> ?thesis"
      then obtain k where k1: "k \<in> set (map (\<lambda>q. mk_key a ?g tid (fst q)) tm)"
        and k2: "k \<in> set (map ?K (collect_edges m))" by blast
      from k1 obtain q where "k = mk_key a ?g tid (fst q)" by auto
      moreover from k2 IH obtain t i where "t \<in> fst ` set m" and "k = mk_key a ?g t i" by blast
      ultimately have "tid \<in> fst ` set m" by (simp add: mk_key_inj)
      with tid_fresh show False by simp
    qed
    have "distinct (map ?K (collect_edges (p # m)))"
      unfolding p collect_edges_Cons map_append head
      using dhead IH disj by simp
    moreover have "\<exists>t i. t \<in> fst ` set (p # m) \<and> k = mk_key a ?g t i"
      if "k \<in> set (map ?K (collect_edges (p # m)))" for k
    proof -
      from that have "k \<in> set (map (\<lambda>q. mk_key a ?g tid (fst q)) tm) \<or> k \<in> set (map ?K (collect_edges m))"
        unfolding p collect_edges_Cons map_append head by simp
      then show ?thesis
      proof
        assume "k \<in> set (map (\<lambda>q. mk_key a ?g tid (fst q)) tm)"
        then obtain q where "k = mk_key a ?g tid (fst q)" by auto
        then show ?thesis using p by auto
      next
        assume "k \<in> set (map ?K (collect_edges m))"
        with IH obtain t i where "t \<in> fst ` set m" and "k = mk_key a ?g t i" by blast
        then show ?thesis by auto
      qed
    qed
    ultimately show ?case by blast
  qed
  moreover from assms have "distinct (map fst m)"
    unfolding tm_inv_def by blast
  moreover from assms have "distinct (map fst tm)" if "(tid, tm) \<in> set m" for tid tm
    using that unfolding tm_inv_def by (metis map_of_is_SomeI)
  moreover from assms have "?K (fst en) = mk_key a ?g tid iri"
    if "(tid, tm) \<in> set m" and "(iri, en) \<in> set tm" for tid tm iri en
    using that unfolding tm_inv_def by (metis map_of_is_SomeI)
  ultimately show ?thesis by blast
qed

subsection \<open>The cache\<close>

lemma use_cache_fst: "fst (use_cache h cache es nc) = map (replace_by_cache h cache) es"
  by (induction es arbitrary: nc) (simp_all add: Let_def)

lemma use_cache_dom:
  "dom (snd (use_cache h cache es nc)) =
     dom nc \<union> ge_identifier h ` set (fst (use_cache h cache es nc))"
  by (induction es arbitrary: nc) (auto simp: Let_def)

lemma replace_by_cache_key:
  assumes "\<And>k r. cache k = Some r \<Longrightarrow> ge_identifier h r = k"
  shows "ge_identifier h (replace_by_cache h cache e) = ge_identifier h e"
  using assms by (simp add: replace_by_cache_def split: option.splits)

lemma use_cache_other:
  assumes "\<And>k r. cache k = Some r \<Longrightarrow> ge_identifier h r = k"
    and "k \<notin> ge_identifier h ` set es"
  shows "snd (use_cache h cache es nc) k = nc k"
  using assms(2)
proof (induction es arbitrary: nc)
  case Nil
  then show ?case by simp
next
  case (Cons e es)
  then show ?case
    by (simp add: Let_def replace_by_cache_key [OF assms(1)])
qed

lemma use_cache_lookup:
  assumes wf: "\<And>k r. cache k = Some r \<Longrightarrow> ge_identifier h r = k"
    and "distinct (map (ge_identifier h) es)"
    and "i < length es"
  shows "snd (use_cache h cache es nc) (ge_identifier h (es ! i)) = Some (replace_by_cache h cache (es ! i))"
  using assms(2,3)
proof (induction es arbitrary: nc i)
  case Nil
  then show ?case by simp
next
  case (Cons e es)
  show ?case
  proof (cases i)
    case 0
    have "ge_identifier h e \<notin> ge_identifier h ` set es"
      using Cons.prems(1) by simp
    from use_cache_other [OF wf this] show ?thesis
      using 0 by (simp add: Let_def replace_by_cache_key [OF wf])
  next
    case (Suc j)
    then have "j < length es" using Cons.prems(2) by simp
    moreover have "distinct (map (ge_identifier h) es)" using Cons.prems(1) by simp
    ultimately show ?thesis using Cons.IH Suc by (simp add: Let_def)
  qed
qed

lemma select_store_bucket: "select_bucket a b (store_bucket a b nb c) = nb"
  by (simp add: select_bucket_def store_bucket_def)

lemma call_unfold:
  assumes "news = collect_edges (aggregate h this a b)"
  shows "getGroupEdgesInDirection h this a b =
     (map (replace_by_cache (snd (alloc h news)) (bucket h this a b)) (fst (alloc h news)),
      (snd (alloc h news))\<lparr>groupEdgesCache := (groupEdgesCache h)
         (this \<mapsto> store_bucket a b
            (snd (use_cache (snd (alloc h news)) (bucket h this a b) (fst (alloc h news)) Map.empty))
            (init_cache (groupEdgesCache h this)))\<rparr>)"
  unfolding getGroupEdgesInDirection_def Let_def assms bucket_def
  by (simp only: use_cache_fst alloc_groupEdgesCache)

lemma bucket_after_call:
  "bucket (h'\<lparr>groupEdgesCache := (g)(this \<mapsto> store_bucket a b nb c)\<rparr>) this a b = nb"
  by (simp add: bucket_def init_cache_def select_store_bucket)

lemma cache_wf_bucket: "cache_wf h this \<Longrightarrow> bucket_wf h (bucket h this a b)"
  by (simp add: cache_wf_def bucket_def select_bucket_def Let_def)

lemma cache_wf_uninitialised: "groupEdgesCache h this = None \<Longrightarrow> cache_wf h this"
  by (simp add: cache_wf_def init_cache_def bucket_wf_def)

lemmas example_defs = example_edge_def example_node_def example_heap_def

lemmas aggregation_defs = getGroupEdgesInDirection_def aggregate_def edge_step_def
  collect_edges_def retain_included_def init_cache_def select_bucket_def store_bucket_def
  ge_identifier_def GroupEdge_identifier_def replace_by_cache_def isVisible_def Let_def

lemma use_cache_entries:
  assumes "snd (use_cache h cache es nc) k = Some r"
  shows "nc k = Some r \<or> (r \<in> set (fst (use_cache h cache es nc)) \<and> ge_identifier h r = k)"
  using assms
proof (induction es arbitrary: nc)
  case Nil
  then show ?case by simp
next
  case (Cons e es)
  let ?e' = "replace_by_cache h cache e"
  let ?nc' = "nc(ge_identifier h ?e' \<mapsto> ?e')"
  from Cons.prems have "snd (use_cache h cache es ?nc') k = Some r"
    by (simp add: Let_def)
  from Cons.IH [OF this]
  have "?nc' k = Some r \<or> (r \<in> set (fst (use_cache h cache es ?nc')) \<and> ge_identifier h r = k)" .
  then show ?case
  proof
    assume "?nc' k = Some r"
    then have "(k = ge_identifier h ?e' \<and> r = ?e') \<or> nc k = Some r"
      by (auto split: if_splits)
    then show ?thesis by (auto simp: Let_def)
  next
    assume "r \<in> set (fst (use_cache h cache es ?nc')) \<and> ge_identifier h r = k"
    then show ?thesis by (simp add: Let_def)
  qed
qed

lemma bucket_wf_later:
  assumes wf: "bucket_wf h b"
    and same: "node_at h' = node_at h" "group_at h' = group_at h"
    and le: "ge_next h \<le> ge_next h'"
    and old: "\<And>r. r < ge_next h \<Longrightarrow> ge_at h' r = ge_at h r"
  shows "bucket_wf h' b"
  unfolding bucket_wf_def
proof (intro allI impI)
  fix k r
  assume "b k = Some r"
  with wf have r: "r < ge_next h" and k: "ge_identifier h r = k"
    unfolding bucket_wf_def by blast+
  have "ge_identifier h' r = GroupEdge_identifier h' (ge_at h r)"
    using old [OF r] by (simp add: ge_identifier_def)
  also have "\<dots> = GroupEdge_identifier h (ge_at h r)"
    by (rule identifier_cong [OF same])
  finally have "ge_identifier h' r = k"
    using k by (simp add: ge_identifier_def)
  with r le show "r < ge_next h' \<and> ge_identifier h' r = k" by simp
qed

lemma cache_wf_preserved:
  assumes wf: "cache_wf h this"
  shows "cache_wf (snd (getGroupEdgesInDirection h this a b)) this"
proof -
  define news where "news = collect_edges (aggregate h this a b)"
  define ha where "ha = snd (alloc h news)"
  define es1 where "es1 = fst (alloc h news)"
  define b0 where "b0 = bucket h this a b"
  define c where "c = init_cache (groupEdgesCache h this)"
  define cache1 where "cache1 = snd (use_cache ha b0 es1 Map.empty)"
  define h1 where "h1 = snd (getGroupEdgesInDirection h this a b)"
  have h1: "h1 = ha\<lparr>groupEdgesCache := (groupEdgesCache h)(this \<mapsto> store_bucket a b cache1 c)\<rparr>"
    unfolding h1_def call_unfold [OF news_def]
    by (simp add: ha_def es1_def b0_def cache1_def c_def)
  have same: "node_at h1 = node_at h" "group_at h1 = group_at h"
    by (simp_all add: h1 ha_def alloc_node_at alloc_group_at)
  have le: "ge_next h \<le> ge_next h1"
    by (simp add: h1 ha_def alloc_ge_next)
  have old: "ge_at h1 r = ge_at h r" if "r < ge_next h" for r
    using that by (simp add: h1 ha_def alloc_ge_at_old)
  have later: "bucket_wf h1 x" if "bucket_wf h x" for x
    using that same le old by (rule bucket_wf_later)
  from wf have wfs: "bucket_wf h (c_out c)" "bucket_wf h (c_in c)" "bucket_wf h (c_in_group c)"
    by (simp_all add: cache_wf_def c_def Let_def)
  from wf have bwf: "bucket_wf h b0"
    unfolding b0_def by (rule cache_wf_bucket)
  have new: "bucket_wf h1 cache1"
    unfolding bucket_wf_def
  proof (intro allI impI)
    fix k r
    assume "cache1 k = Some r"
    from use_cache_entries [OF this [unfolded cache1_def]]
    have r: "r \<in> set (map (replace_by_cache ha b0) es1)" and k: "ge_identifier ha r = k"
      by (simp_all add: use_cache_fst)
    from r obtain e where e: "e \<in> set es1" and re: "r = replace_by_cache ha b0 e" by auto
    have "r < ge_next h1"
    proof (cases "b0 (ge_identifier ha e)")
      case None
      with re have "r = e" by (simp add: replace_by_cache_def)
      with e have "r < ge_next h + length news"
        by (simp add: es1_def alloc_fst)
      then show ?thesis by (simp add: h1 ha_def alloc_ge_next)
    next
      case (Some x)
      with re have "r = x" by (simp add: replace_by_cache_def)
      with Some bwf have "r < ge_next h" unfolding bucket_wf_def by blast
      with le show ?thesis by simp
    qed
    moreover have "ge_identifier h1 r = ge_identifier ha r"
      unfolding h1 by (rule ge_identifier_cache_update)
    ultimately show "r < ge_next h1 \<and> ge_identifier h1 r = k" using k by simp
  qed
  have "groupEdgesCache h1 this = Some (store_bucket a b cache1 c)"
    by (simp add: h1)
  then have "cache_wf h1 this =
       (bucket_wf h1 (c_out (store_bucket a b cache1 c)) \<and>
        bucket_wf h1 (c_in (store_bucket a b cache1 c)) \<and>
        bucket_wf h1 (c_in_group (store_bucket a b cache1 c)))"
    by (simp add: cache_wf_def init_cache_def Let_def)
  also have "\<dots>"
    using new later [OF wfs(1)] later [OF wfs(2)] later [OF wfs(3)]
    by (simp add: store_bucket_def)
  finally show ?thesis by (simp add: h1_def)
qed

text \<open>
  An object that was allocated before the call is not written by the call: a cached edge
  that is returned still has the classes it was made with.
\<close>

lemma cached_edge_unchanged:
  assumes "r < ge_next h"
  shows "ge_at (snd (getGroupEdgesInDirection h this a b)) r = ge_at h r"
  using assms by (simp add: call_unfold [OF refl] alloc_ge_at_old)

subsection \<open>Calls in between\<close>

lemma call_node_at: "node_at (snd (getGroupEdgesInDirection h g a b)) = node_at h"
  by (simp add: call_unfold [OF refl] alloc_node_at)

lemma call_group_at: "group_at (snd (getGroupEdgesInDirection h g a b)) = group_at h"
  by (simp add: call_unfold [OF refl] alloc_group_at)

lemma call_ge_next: "ge_next h \<le> ge_next (snd (getGroupEdgesInDirection h g a b))"
  by (simp add: call_unfold [OF refl] alloc_ge_next)

lemma call_other_group:
  "g \<noteq> this \<Longrightarrow> groupEdgesCache (snd (getGroupEdgesInDirection h g a b)) this = groupEdgesCache h this"
  by (simp add: call_unfold [OF refl])

lemma call_other_bucket:
  assumes "\<not> same_bucket a b a' b'"
  shows "bucket (snd (getGroupEdgesInDirection h this a' b')) this a b = bucket h this a b"
  using assms
  by (auto simp: call_unfold [OF refl] bucket_def init_cache_def select_bucket_def store_bucket_def
      same_bucket_def)

lemma call_new_keys:
  "new_keys (snd (getGroupEdgesInDirection h g a' b')) this a b = new_keys h this a b"
proof -
  let ?h' = "snd (getGroupEdgesInDirection h g a' b')"
  have "aggregate ?h' this a b = aggregate h this a b"
    by (rule aggregate_cong [OF call_node_at call_group_at])
  moreover have "GroupEdge_identifier ?h' e = GroupEdge_identifier h e" for e
    by (rule identifier_cong [OF call_node_at call_group_at])
  ultimately show ?thesis by (simp add: new_keys_def)
qed

lemma edge_step_out: "edge_step h this True b e m = edge_step h this True b' e m"
  by (simp add: edge_step_def)

lemma same_bucket_call:
  assumes "same_bucket a b a' b'"
  shows "getGroupEdgesInDirection h this a' b' = getGroupEdgesInDirection h this a b"
proof (cases a)
  case True
  have "edge_step h this True b' = edge_step h this True b"
    by (intro ext) (rule edge_step_out)
  then have "aggregate h this True b' = aggregate h this True b"
    by (simp only: aggregate_def)
  with True assms show ?thesis
    by (simp add: same_bucket_def getGroupEdgesInDirection_def select_bucket_def store_bucket_def)
next
  case False
  with assms show ?thesis by (simp add: same_bucket_def)
qed

lemma call_result:
  "length (fst (getGroupEdgesInDirection h this a b)) = length (new_keys h this a b) \<and>
   (\<forall>i < length (new_keys h this a b).
      fst (getGroupEdgesInDirection h this a b) ! i =
        (case bucket h this a b (new_keys h this a b ! i) of
           Some c \<Rightarrow> c
         | None \<Rightarrow> ge_next h + i))"
proof -
  define news where "news = collect_edges (aggregate h this a b)"
  define ha where "ha = snd (alloc h news)"
  define es where "es = fst (alloc h news)"
  have r: "fst (getGroupEdgesInDirection h this a b) = map (replace_by_cache ha (bucket h this a b)) es"
    by (simp add: call_unfold [OF news_def] ha_def es_def)
  have len: "length es = length news" by (simp add: es_def alloc_length)
  have keys: "map (ge_identifier ha) es = new_keys h this a b"
    unfolding ha_def es_def new_keys_def news_def by (rule alloc_keys)
  have "fst (getGroupEdgesInDirection h this a b) ! i =
        (case bucket h this a b (new_keys h this a b ! i) of Some c \<Rightarrow> c | None \<Rightarrow> ge_next h + i)"
    if "i < length (new_keys h this a b)" for i
  proof -
    from that have i: "i < length es" using keys by (metis length_map)
    then have "ge_identifier ha (es ! i) = new_keys h this a b ! i"
      using keys by (metis nth_map)
    moreover have "es ! i = ge_next h + i"
      using i len by (simp add: es_def alloc_nth)
    ultimately show ?thesis using i by (simp add: r replace_by_cache_def)
  qed
  moreover have "length (fst (getGroupEdgesInDirection h this a b)) = length (new_keys h this a b)"
    using keys by (metis r length_map)
  ultimately show ?thesis by blast
qed

lemma call_bucket:
  assumes bwf: "bucket_wf h (bucket h this a b)" and i: "i < length (new_keys h this a b)"
  shows "bucket (snd (getGroupEdgesInDirection h this a b)) this a b (new_keys h this a b ! i) =
           Some (fst (getGroupEdgesInDirection h this a b) ! i)"
proof -
  define news where "news = collect_edges (aggregate h this a b)"
  define ha where "ha = snd (alloc h news)"
  define es where "es = fst (alloc h news)"
  define b0 where "b0 = bucket h this a b"
  have r: "fst (getGroupEdgesInDirection h this a b) = map (replace_by_cache ha b0) es"
    by (simp add: call_unfold [OF news_def] ha_def es_def b0_def)
  have bk: "bucket (snd (getGroupEdgesInDirection h this a b)) this a b =
            snd (use_cache ha b0 es Map.empty)"
    unfolding call_unfold [OF news_def] snd_conv
    by (simp only: bucket_after_call ha_def es_def b0_def)
  have keys: "map (ge_identifier ha) es = new_keys h this a b"
    unfolding ha_def es_def new_keys_def news_def by (rule alloc_keys)
  have dist: "distinct (map (ge_identifier ha) es)"
    unfolding keys new_keys_def by (rule collect_edges_keys [OF aggregate_inv])
  have wfa: "ge_identifier ha r = k" if "b0 k = Some r" for k r
  proof -
    from bwf that have "r < ge_next h" and "ge_identifier h r = k"
      unfolding bucket_wf_def b0_def by blast+
    then show ?thesis by (simp add: ha_def alloc_old_key)
  qed
  from i have ie: "i < length es" using keys by (metis length_map)
  then have k: "ge_identifier ha (es ! i) = new_keys h this a b ! i"
    using keys by (metis nth_map)
  from use_cache_lookup [where cache = b0 and nc = Map.empty, OF wfa dist ie] show ?thesis
    using ie by (simp add: bk r k)
qed

lemma call_dom:
  "dom (bucket (snd (getGroupEdgesInDirection h this a b)) this a b) =
     ge_identifier (snd (getGroupEdgesInDirection h this a b)) `
       set (fst (getGroupEdgesInDirection h this a b))"
proof -
  define news where "news = collect_edges (aggregate h this a b)"
  define ha where "ha = snd (alloc h news)"
  define es where "es = fst (alloc h news)"
  define b0 where "b0 = bucket h this a b"
  have r: "fst (getGroupEdgesInDirection h this a b) = fst (use_cache ha b0 es Map.empty)"
    by (simp add: call_unfold [OF news_def] ha_def es_def b0_def use_cache_fst)
  have bk: "bucket (snd (getGroupEdgesInDirection h this a b)) this a b =
            snd (use_cache ha b0 es Map.empty)"
    unfolding call_unfold [OF news_def] snd_conv
    by (simp only: bucket_after_call ha_def es_def b0_def)
  have "ge_identifier (snd (getGroupEdgesInDirection h this a b)) = ge_identifier ha"
    unfolding call_unfold [OF news_def] snd_conv ha_def
    by (intro ext) (rule ge_identifier_cache_update)
  then show ?thesis by (simp add: bk r use_cache_dom)
qed

lemma call_replaced:
  assumes bwf: "bucket_wf h (bucket h this a b)"
    and r: "r \<in> set (fst (getGroupEdgesInDirection h this a b))"
    and c: "bucket h this a b (ge_identifier (snd (getGroupEdgesInDirection h this a b)) r) = Some c"
  shows "r = c"
proof -
  define news where "news = collect_edges (aggregate h this a b)"
  define ha where "ha = snd (alloc h news)"
  define es where "es = fst (alloc h news)"
  define b0 where "b0 = bucket h this a b"
  have rs: "fst (getGroupEdgesInDirection h this a b) = map (replace_by_cache ha b0) es"
    by (simp add: call_unfold [OF news_def] ha_def es_def b0_def)
  have idn: "ge_identifier (snd (getGroupEdgesInDirection h this a b)) = ge_identifier ha"
    unfolding call_unfold [OF news_def] snd_conv ha_def
    by (intro ext) (rule ge_identifier_cache_update)
  have wfa: "ge_identifier ha r = k" if "b0 k = Some r" for k r
  proof -
    from bwf that have "r < ge_next h" and "ge_identifier h r = k"
      unfolding bucket_wf_def b0_def by blast+
    then show ?thesis by (simp add: ha_def alloc_old_key)
  qed
  from r obtain e where e: "r = replace_by_cache ha b0 e"
    unfolding rs by auto
  have "ge_identifier ha r = ge_identifier ha e"
    unfolding e by (rule replace_by_cache_key) (rule wfa)
  with c have "b0 (ge_identifier ha e) = Some c"
    by (simp add: idn b0_def)
  then show ?thesis by (simp add: e replace_by_cache_def)
qed

lemma cached_first:
  assumes "cache_wf h this"
  shows "cached (snd (getGroupEdgesInDirection h this a b)) this a b
           (fst (getGroupEdgesInDirection h this a b))"
  unfolding cached_def call_new_keys
  using cache_wf_preserved [OF assms] call_result [of h this a b]
    call_bucket [OF cache_wf_bucket [OF assms]]
  by simp

lemma cached_again:
  assumes "cached h this a b rs"
  shows "fst (getGroupEdgesInDirection h this a b) = rs \<and>
         cached (snd (getGroupEdgesInDirection h this a b)) this a b rs"
proof -
  from assms have wf: "cache_wf h this" and len: "length rs = length (new_keys h this a b)"
    and look: "\<And>i. i < length rs \<Longrightarrow> bucket h this a b (new_keys h this a b ! i) = Some (rs ! i)"
    by (simp_all add: cached_def)
  have "fst (getGroupEdgesInDirection h this a b) = rs"
  proof (rule nth_equalityI)
    show "length (fst (getGroupEdgesInDirection h this a b)) = length rs"
      using call_result [of h this a b] len by simp
  next
    fix i
    assume "i < length (fst (getGroupEdgesInDirection h this a b))"
    then have i: "i < length rs" using call_result [of h this a b] len by simp
    with call_result [of h this a b] len look [OF i]
    show "fst (getGroupEdgesInDirection h this a b) ! i = rs ! i" by simp
  qed
  with cached_first [OF wf, of a b] show ?thesis by simp
qed

lemma cache_wf_other_group:
  assumes "cache_wf h this" and "g \<noteq> this"
  shows "cache_wf (snd (getGroupEdgesInDirection h g a b)) this"
proof -
  let ?h' = "snd (getGroupEdgesInDirection h g a b)"
  have later: "bucket_wf ?h' x" if "bucket_wf h x" for x
    using that call_node_at call_group_at call_ge_next
    by (rule bucket_wf_later) (rule cached_edge_unchanged)
  from assms(1) show ?thesis
    by (simp add: cache_wf_def Let_def call_other_group [OF assms(2)] later)
qed

lemma cached_other:
  assumes c: "cached h this a b rs" and other: "\<not> (g = this \<and> same_bucket a b a' b')"
  shows "cached (snd (getGroupEdgesInDirection h g a' b')) this a b rs"
proof (cases "g = this")
  case True
  with other have nb: "\<not> same_bucket a b a' b'" by simp
  from c have "cache_wf h this" by (simp add: cached_def)
  then have "cache_wf (snd (getGroupEdgesInDirection h this a' b')) this"
    by (rule cache_wf_preserved)
  with c True show ?thesis
    by (simp add: cached_def call_new_keys call_other_bucket [OF nb])
next
  case False
  then have "bucket (snd (getGroupEdgesInDirection h g a' b')) this a b = bucket h this a b"
    by (simp add: bucket_def call_other_group)
  moreover from c have "cache_wf (snd (getGroupEdgesInDirection h g a' b')) this"
    using False by (simp add: cached_def cache_wf_other_group)
  ultimately show ?thesis using c by (simp add: cached_def call_new_keys)
qed

lemma cached_call:
  assumes "cached h this a b rs"
  shows "cached (snd (getGroupEdgesInDirection h g a' b')) this a b rs"
proof (cases "g = this \<and> same_bucket a b a' b'")
  case True
  then have "getGroupEdgesInDirection h g a' b' = getGroupEdgesInDirection h this a b"
    by (simp add: same_bucket_call)
  with cached_again [OF assms] show ?thesis by simp
next
  case False
  with assms show ?thesis by (rule cached_other)
qed

lemma cached_further_calls:
  "cached h this a b rs \<Longrightarrow> cached (further_calls cs h) this a b rs"
proof (induction cs arbitrary: h)
  case Nil
  then show ?case by (simp add: further_calls_def)
next
  case (Cons c cs)
  obtain g a' b' where c: "c = (g, a', b')" by (cases c)
  from Cons.IH [OF cached_call [OF Cons.prems, of g a' b']] show ?case
    by (simp add: further_calls_def c)
qed

text \<open>
  Claim C1. Let the cache of the group be well formed (it is before the first call, see
  \<open>cache_wf_uninitialised\<close>, and every call keeps it so, see \<open>cache_wf_preserved\<close>).
  After a call of \<open>getGroupEdgesInDirection\<close>, let any number of further calls be made,
  on any groups and in any directions, with the nodes, the edges and the groups left as
  they are. Then a call in the direction of the first returns the same objects:
  \<open>r2 = r1\<close> as lists of addresses. After each of the two calls the bucket of that
  direction holds exactly the identifiers of the edges returned. And an edge returned by
  the first call whose identifier the bucket had before is the object the bucket had.
\<close>

theorem aggregation_cache_stable:
  assumes wf: "cache_wf h this"
    and c1: "getGroupEdgesInDirection h this a b = (r1, h1)"
    and c2: "getGroupEdgesInDirection (further_calls cs h1) this a b = (r2, h2)"
  shows "r2 = r1 \<and>
         dom (bucket h1 this a b) = ge_identifier h1 ` set r1 \<and>
         dom (bucket h2 this a b) = ge_identifier h2 ` set r2 \<and>
         (\<forall>r \<in> set r1. \<forall>c. bucket h this a b (ge_identifier h1 r) = Some c \<longrightarrow> r = c)"
proof -
  from cached_first [OF wf, of a b] c1 have "cached h1 this a b r1" by simp
  then have "cached (further_calls cs h1) this a b r1" by (rule cached_further_calls)
  from cached_again [OF this] c2 have "r2 = r1" by simp
  moreover from call_dom [of h this a b] c1
  have "dom (bucket h1 this a b) = ge_identifier h1 ` set r1" by simp
  moreover from call_dom [of "further_calls cs h1" this a b] c2
  have "dom (bucket h2 this a b) = ge_identifier h2 ` set r2" by simp
  moreover have "r = c" if "r \<in> set r1" and "bucket h this a b (ge_identifier h1 r) = Some c" for r c
    using call_replaced [OF cache_wf_bucket [OF wf], of r a b c] that c1 by simp
  ultimately show ?thesis by blast
qed

text \<open>
  A witness for C1: the member has an edge from \<open>x\<close> and an edge to \<open>x\<close>. The call for
  the incoming edges returns the object at address \<open>0\<close>, the call for the outgoing edges
  the object at address \<open>1\<close>, and the next call for the incoming edges the object at
  address \<open>0\<close> again.
\<close>

theorem aggregation_cache_stable_witness:
  "cache_wf (example_heap [example_incoming, example_edge ''T'' [''a'', ''b'']]) 0 \<and>
   fst (getGroupEdgesInDirection (example_heap [example_incoming, example_edge ''T'' [''a'', ''b'']]) 0 False False) = [0] \<and>
   fst (getGroupEdgesInDirection
          (snd (getGroupEdgesInDirection (example_heap [example_incoming, example_edge ''T'' [''a'', ''b'']]) 0 False False))
          0 True False) = [1] \<and>
   fst (getGroupEdgesInDirection
          (further_calls [(0, True, False)]
             (snd (getGroupEdgesInDirection (example_heap [example_incoming, example_edge ''T'' [''a'', ''b'']]) 0 False False)))
          0 False False) = [0]"
proof -
  let ?h = "example_heap [example_incoming, example_edge ''T'' [''a'', ''b'']]"
  have wf: "cache_wf ?h 0"
    by (rule cache_wf_uninitialised) (simp add: example_heap_def)
  have r1: "fst (getGroupEdgesInDirection ?h 0 False False) = [0]"
    by (simp add: aggregation_defs example_defs example_incoming_def)
  have r2: "fst (getGroupEdgesInDirection (snd (getGroupEdgesInDirection ?h 0 False False)) 0 True False) = [1]"
    by (simp add: aggregation_defs example_defs example_incoming_def)
  from aggregation_cache_stable [where a = False and b = False and cs = "[(0, True, False)]",
      OF wf surjective_pairing surjective_pairing]
    r1 r2 wf
  show ?thesis by simp
qed

text \<open>
  So the getter \<open>visibleGroupEdges\<close>, which calls for the incoming and then for the
  outgoing edges, returns the same objects when it is read twice.
\<close>

lemma visibleGroupEdges_stable:
  assumes "cache_wf h this"
  shows "fst (visibleGroupEdges (snd (visibleGroupEdges h this)) this) = fst (visibleGroupEdges h this)"
proof -
  let ?i1 = "getGroupEdgesInDirection h this False False"
  let ?o1 = "getGroupEdgesInDirection (snd ?i1) this True False"
  let ?i2 = "getGroupEdgesInDirection (snd ?o1) this False False"
  let ?o2 = "getGroupEdgesInDirection (snd ?i2) this True False"
  have ci: "cached (snd ?i1) this False False (fst ?i1)"
    by (rule cached_first [OF assms])
  have wf1: "cache_wf (snd ?i1) this" using ci by (simp add: cached_def)
  have co: "cached (snd ?o1) this True False (fst ?o1)"
    by (rule cached_first [OF wf1])
  have "cached (snd ?o1) this False False (fst ?i1)"
    by (rule cached_call [OF ci])
  from cached_again [OF this] have i2: "fst ?i2 = fst ?i1" by simp
  have "cached (snd ?i2) this True False (fst ?o1)"
    by (rule cached_call [OF co])
  from cached_again [OF this] have "fst ?o2 = fst ?o1" by simp
  with i2 show ?thesis by (simp add: visibleGroupEdges_def Let_def)
qed

subsection \<open>The classes of a new edge\<close>

lemma set_new_Set: "set (new_Set xs) = set xs"
  by (induction xs rule: new_Set.induct) auto

lemma retain_included_fold:
  "fold (\<lambda>cls acc. if cls \<notin> set arr then removeAll cls acc else acc) xs s =
     filter (\<lambda>c. c \<in> set arr \<or> c \<notin> set xs) s"
proof (induction xs arbitrary: s)
  case Nil
  then show ?case by simp
next
  case (Cons x xs)
  show ?case
  proof (cases "x \<in> set arr")
    case True
    have "filter (\<lambda>c. c \<in> set arr \<or> c \<notin> set xs) s =
          filter (\<lambda>c. c \<in> set arr \<or> c \<notin> set (x # xs)) s"
      using True by (intro filter_cong) auto
    with True show ?thesis by (simp add: Cons.IH)
  next
    case False
    have "filter (\<lambda>c. c \<in> set arr \<or> c \<notin> set xs) (removeAll x s) =
          filter (\<lambda>c. c \<in> set arr \<or> c \<notin> set (x # xs)) s"
      using False by (induction s) auto
    with False show ?thesis by (simp add: Cons.IH)
  qed
qed

lemma retain_included_filter: "retain_included arr s = filter (\<lambda>c. c \<in> set arr) s"
  unfolding retain_included_def retain_included_fold
  by (rule filter_cong) auto

lemma set_retain_included: "set (retain_included arr s) = set s \<inter> set arr"
  by (auto simp: retain_included_filter)

lemma edge_step_target:
  "edge_step h this a b edge m =
     (case edge_target h this a b edge of
        None \<Rightarrow> m
      | Some targetNode \<Rightarrow>
          (let typeGroupEdge = (case map_of m (nc_identifier h targetNode) of
                                  None \<Rightarrow> []
                                | Some tm \<Rightarrow> tm);
               newEdge = (if a
                          then \<lparr>ge_source = GroupRef this, ge_target = targetNode,
                                ge_type_iri = e_type_iri edge, ge_classes = []\<rparr>
                          else \<lparr>ge_source = targetNode, ge_target = GroupRef this,
                                ge_type_iri = e_type_iri edge, ge_classes = []\<rparr>);
               entry = (case map_of typeGroupEdge (e_type_iri edge) of
                          None \<Rightarrow> (newEdge, new_Set (e_classes edge))
                        | Some en \<Rightarrow> en)
           in AList.update (nc_identifier h targetNode)
                (AList.update (e_type_iri edge)
                   (fst entry, retain_included (e_classes edge) (snd entry)) typeGroupEdge) m))"
  unfolding edge_step_def edge_target_def Let_def
  by (simp only: if_distrib [of "case_option _ _"] option.case if_cancel)

lemma aggregate_member_edges:
  "aggregate h this a b = fold (edge_step h this a b) (member_edges h this) []"
proof -
  have "fold (\<lambda>sourceNode m.
             if \<not> n_isVisible (node_at h sourceNode) then m
             else fold (edge_step h this a b) (n_edges (node_at h sourceNode)) m) ns m =
        fold (edge_step h this a b)
          (concat (map (\<lambda>n. n_edges (node_at h n)) (filter (\<lambda>n. n_isVisible (node_at h n)) ns))) m"
    for ns m
    by (induction ns arbitrary: m) simp_all
  then show ?thesis by (simp add: aggregate_def member_edges_def)
qed

lemma lookup2_update:
  assumes "tm0 = (case map_of m tid0 of None \<Rightarrow> [] | Some tm \<Rightarrow> tm)"
  shows "lookup2 (AList.update tid0 (AList.update iri0 v tm0) m) tid iri =
           (if tid = tid0 \<and> iri = iri0 then Some v else lookup2 m tid iri)"
  using assms by (auto simp: lookup2_def update_conv' split: option.splits)

lemma classes_inv_Nil: "classes_inv h this a b [] []"
  by (simp add: classes_inv_def lookup2_def)

lemma classes_case_unchanged:
  assumes "case l of
             None \<Rightarrow> \<forall>e \<in> set es. \<not> S e
           | Some en \<Rightarrow> (\<exists>e \<in> set es. S e) \<and> set (snd en) = (\<Inter>e \<in> {e \<in> set es. S e}. C e)"
    and "\<not> S e0"
  shows "case l of
           None \<Rightarrow> \<forall>e \<in> set (es @ [e0]). \<not> S e
         | Some en \<Rightarrow> (\<exists>e \<in> set (es @ [e0]). S e) \<and>
                      set (snd en) = (\<Inter>e \<in> {e \<in> set (es @ [e0]). S e}. C e)"
proof -
  from assms(2) have "{e \<in> set (es @ [e0]). S e} = {e \<in> set es. S e}" by auto
  with assms show ?thesis by (cases l) auto
qed

lemma classes_inv_step:
  assumes inv: "classes_inv h this a b es m"
  shows "classes_inv h this a b (es @ [e]) (edge_step h this a b e m)"
proof (cases "edge_target h this a b e")
  case None
  then have ns: "\<not> summarized h this a b tid iri e" for tid iri
    by (simp add: summarized_def)
  from None have same: "edge_step h this a b e m = m"
    by (simp add: edge_step_target)
  from inv have I: "case lookup2 m tid iri of
          None \<Rightarrow> \<forall>e \<in> set es. \<not> summarized h this a b tid iri e
        | Some en \<Rightarrow>
            (\<exists>e \<in> set es. summarized h this a b tid iri e) \<and>
            set (snd en) = (\<Inter>e \<in> {e \<in> set es. summarized h this a b tid iri e}. set (e_classes e))"
    for tid iri
    unfolding classes_inv_def by blast
  show ?thesis
    unfolding classes_inv_def same
  proof (intro allI)
    fix tid iri
    from classes_case_unchanged [OF I [of tid iri] ns [of tid iri]]
    show "case lookup2 m tid iri of
          None \<Rightarrow> \<forall>x \<in> set (es @ [e]). \<not> summarized h this a b tid iri x
        | Some en \<Rightarrow>
            (\<exists>x \<in> set (es @ [e]). summarized h this a b tid iri x) \<and>
            set (snd en) = (\<Inter>x \<in> {x \<in> set (es @ [e]). summarized h this a b tid iri x}. set (e_classes x))" .
  qed
next
  case (Some t)
  define tid0 where "tid0 = nc_identifier h t"
  define iri0 where "iri0 = e_type_iri e"
  define tm0 where "tm0 = (case map_of m tid0 of None \<Rightarrow> [] | Some tm \<Rightarrow> tm)"
  define newEdge where "newEdge =
    (if a then \<lparr>ge_source = GroupRef this, ge_target = t, ge_type_iri = iri0, ge_classes = []\<rparr>
     else \<lparr>ge_source = t, ge_target = GroupRef this, ge_type_iri = iri0, ge_classes = []\<rparr>)"
  define entry where "entry =
    (case map_of tm0 iri0 of None \<Rightarrow> (newEdge, new_Set (e_classes e)) | Some en \<Rightarrow> en)"
  define v where "v = (fst entry, retain_included (e_classes e) (snd entry))"
  have step: "edge_step h this a b e m = AList.update tid0 (AList.update iri0 v tm0) m"
    unfolding v_def entry_def newEdge_def tm0_def tid0_def iri0_def
    by (simp only: edge_step_target Some option.case Let_def)
  have look: "lookup2 (edge_step h this a b e m) tid iri =
                (if tid = tid0 \<and> iri = iri0 then Some v else lookup2 m tid iri)" for tid iri
    unfolding step by (rule lookup2_update [OF tm0_def])
  have sum_e: "summarized h this a b tid iri e \<longleftrightarrow> tid = tid0 \<and> iri = iri0" for tid iri
    by (auto simp: summarized_def Some tid0_def iri0_def)
  have l0: "map_of tm0 iri0 = lookup2 m tid0 iri0"
    by (simp add: tm0_def lookup2_def split: option.splits)
  from inv have I: "case lookup2 m tid iri of
          None \<Rightarrow> \<forall>e \<in> set es. \<not> summarized h this a b tid iri e
        | Some en \<Rightarrow>
            (\<exists>e \<in> set es. summarized h this a b tid iri e) \<and>
            set (snd en) = (\<Inter>e \<in> {e \<in> set es. summarized h this a b tid iri e}. set (e_classes e))"
    for tid iri
    unfolding classes_inv_def by blast
  show ?thesis
    unfolding classes_inv_def
  proof (intro allI)
    fix tid iri
    show "case lookup2 (edge_step h this a b e m) tid iri of
          None \<Rightarrow> \<forall>x \<in> set (es @ [e]). \<not> summarized h this a b tid iri x
        | Some en \<Rightarrow>
            (\<exists>x \<in> set (es @ [e]). summarized h this a b tid iri x) \<and>
            set (snd en) = (\<Inter>x \<in> {x \<in> set (es @ [e]). summarized h this a b tid iri x}. set (e_classes x))"
    proof (cases "tid = tid0 \<and> iri = iri0")
      case False
      then have "\<not> summarized h this a b tid iri e" by (simp add: sum_e)
      from classes_case_unchanged [OF I [of tid iri] this]
      show ?thesis unfolding look using False by (simp only: if_False)
    next
      case True
      then have se: "summarized h this a b tid iri e" by (simp add: sum_e)
      have split: "{x \<in> set (es @ [e]). summarized h this a b tid iri x} =
                   insert e {x \<in> set es. summarized h this a b tid iri x}"
        using se by auto
      have "set (snd v) = (\<Inter>x \<in> {x \<in> set (es @ [e]). summarized h this a b tid iri x}. set (e_classes x))"
      proof (cases "lookup2 m tid0 iri0")
        case None
        with I [of tid0 iri0] True have "{x \<in> set es. summarized h this a b tid iri x} = {}"
          by auto
        moreover from None have "entry = (newEdge, new_Set (e_classes e))"
          by (simp add: entry_def l0)
        ultimately show ?thesis
          unfolding split by (auto simp: v_def set_retain_included set_new_Set)
      next
        case (Some en)
        with I [of tid0 iri0] True
        have "set (snd en) = (\<Inter>x \<in> {x \<in> set es. summarized h this a b tid iri x}. set (e_classes x))"
          by simp
        moreover from Some have "entry = en"
          by (simp add: entry_def l0)
        ultimately show ?thesis
          unfolding split by (auto simp: v_def set_retain_included)
      qed
      moreover have "lookup2 (edge_step h this a b e m) tid iri = Some v"
        using True by (simp add: look)
      moreover have "\<exists>x \<in> set (es @ [e]). summarized h this a b tid iri x"
        using se by auto
      ultimately show ?thesis by simp
    qed
  qed
qed

lemma classes_inv_fold:
  "classes_inv h this a b es m \<Longrightarrow>
   classes_inv h this a b (es @ es') (fold (edge_step h this a b) es' m)"
proof (induction es' arbitrary: es m)
  case Nil
  then show ?case by simp
next
  case (Cons e es')
  from Cons.IH [OF classes_inv_step [OF Cons.prems, of e]] show ?case by simp
qed

lemma classes_inv_aggregate:
  "classes_inv h this a b (member_edges h this) (aggregate h this a b)"
  using classes_inv_fold [OF classes_inv_Nil, of h this a b "member_edges h this"]
  by (simp add: aggregate_member_edges)

lemma collect_edges_elem:
  assumes "ge \<in> set (collect_edges m)" and "distinct (map fst m)"
    and "\<And>tid tm. map_of m tid = Some tm \<Longrightarrow> distinct (map fst tm)"
  shows "\<exists>tid iri en. lookup2 m tid iri = Some en \<and> ge = (fst en)\<lparr>ge_classes := snd en\<rparr>"
proof -
  from assms(1) obtain tid tm iri en where m: "(tid, tm) \<in> set m" and t: "(iri, en) \<in> set tm"
    and ge: "ge = (fst en)\<lparr>ge_classes := snd en\<rparr>"
    by (auto simp: collect_edges_def)
  from m assms(2) have mt: "map_of m tid = Some tm" by simp
  with assms(3) have "distinct (map fst tm)" by blast
  with t have "map_of tm iri = Some en" by simp
  with mt have "lookup2 m tid iri = Some en" by (simp add: lookup2_def)
  with ge show ?thesis by blast
qed

text \<open>
  Every \<open>GroupEdge\<close> the pass makes stands for at least one edge, and its classes are
  those that all the edges it stands for have.
\<close>

lemma new_edge_classes_intersection:
  assumes "ge \<in> set (collect_edges (aggregate h this a b))"
  shows "\<exists>tid. GroupEdge_identifier h ge = mk_key a (g_id (group_at h this)) tid (ge_type_iri ge) \<and>
           (\<exists>e \<in> set (member_edges h this). summarized h this a b tid (ge_type_iri ge) e) \<and>
           set (ge_classes ge) =
             (\<Inter>e \<in> {e \<in> set (member_edges h this). summarized h this a b tid (ge_type_iri ge) e}.
                set (e_classes e))"
proof -
  let ?m = "aggregate h this a b"
  have inv: "tm_inv h this a ?m" by (rule aggregate_inv)
  then have d: "distinct (map fst ?m)"
    and dt: "\<And>tid tm. map_of ?m tid = Some tm \<Longrightarrow> distinct (map fst tm)"
    unfolding tm_inv_def by blast+
  from collect_edges_elem [OF assms d] dt
  obtain tid iri en where l: "lookup2 ?m tid iri = Some en"
    and ge: "ge = (fst en)\<lparr>ge_classes := snd en\<rparr>"
    by blast
  from l obtain tm where "map_of ?m tid = Some tm" and "map_of tm iri = Some en"
    by (auto simp: lookup2_def split: option.splits)
  with inv have key: "GroupEdge_identifier h (fst en) = mk_key a (g_id (group_at h this)) tid iri"
    unfolding tm_inv_def by blast
  then have iri: "ge_type_iri ge = iri"
    by (auto simp: ge GroupEdge_identifier_def mk_key_def split: if_splits)
  have "case lookup2 ?m tid iri of
          None \<Rightarrow> \<forall>e \<in> set (member_edges h this). \<not> summarized h this a b tid iri e
        | Some en \<Rightarrow>
            (\<exists>e \<in> set (member_edges h this). summarized h this a b tid iri e) \<and>
            set (snd en) = (\<Inter>e \<in> {e \<in> set (member_edges h this). summarized h this a b tid iri e}.
                              set (e_classes e))"
    by (rule classes_inv_aggregate [unfolded classes_inv_def, THEN spec, THEN spec])
  with l have "(\<exists>e \<in> set (member_edges h this). summarized h this a b tid iri e) \<and>
        set (snd en) = (\<Inter>e \<in> {e \<in> set (member_edges h this). summarized h this a b tid iri e}.
                          set (e_classes e))"
    by simp
  with key iri show ?thesis
    by (intro exI [of _ tid]) (simp add: ge identifier_classes_update)
qed

text \<open>
  Claim C2, on the code. The pass computes the intersection for every \<open>GroupEdge\<close> it
  makes (\<open>new_edge_classes_intersection\<close>), but the edge returned is the cached object
  whenever the cache has the identifier (\<open>cached_edge_unchanged\<close>). Here the member has
  one edge of type \<open>T\<close> to \<open>x\<close> with classes \<open>a, b\<close>, and the edges are aggregated
  once. Then the member gets a second edge of type \<open>T\<close> to \<open>x\<close> with classes
  \<open>b, c\<close>, and the edges are aggregated again. The pass computes the classes \<open>b\<close> for
  the new \<open>GroupEdge\<close>, but the edge returned is the object of the first call, whose
  classes are still \<open>a, b\<close>.
\<close>

theorem aggregation_stale_classes:
  "(let h1 = snd (getGroupEdgesInDirection (example_heap [example_edge ''T'' [''a'', ''b'']]) 0 True False);
        h2 = h1\<lparr>node_at := (node_at h1)
               (0 := example_node ''m'' (Some 0)
                       [example_edge ''T'' [''a'', ''b''], example_edge ''T'' [''b'', ''c'']])\<rparr>;
        res = getGroupEdgesInDirection h2 0 True False
    in map (\<lambda>r. ge_classes (ge_at (snd res) r)) (fst res) = [[''a'', ''b'']] \<and>
       map ge_classes (collect_edges (aggregate h2 0 True False)) = [[''b'']])"
  by (simp add: aggregation_defs example_defs Let_def)

section \<open>Verification of ColaLayout\<close>

subsection \<open>Bounds on pi\<close>

lemma pi_ge_3: "3 \<le> pi"
proof -
  have "sin (pi / 6) \<le> pi / 6" by (rule sin_x_le_x) simp
  then show ?thesis by (simp add: sin_30)
qed

lemma sin_7_12: "1 / 2 < sin (7 / 12 :: real)"
proof -
  have "\<bar>sin (7 / 12 :: real) - (\<Sum>m<4. sin_coeff m * (7 / 12) ^ m)\<bar> \<le> inverse (fact 4) * \<bar>7 / 12\<bar> ^ 4"
    by (rule Maclaurin_sin_bound)
  moreover have "(\<Sum>m<4. sin_coeff m * (7 / 12 :: real) ^ m) = 7 / 12 - (7 / 12) ^ 3 / 6"
  proof -
    have "(\<Sum>m<4. sin_coeff m * (7 / 12 :: real) ^ m) =
          sin_coeff 0 * (7 / 12) ^ 0 + sin_coeff 1 * (7 / 12) ^ 1 + sin_coeff 2 * (7 / 12) ^ 2 +
          sin_coeff 3 * (7 / 12) ^ 3"
      by (simp add: numeral_eq_Suc)
    moreover have "sin_coeff 0 = 0" "sin_coeff 1 = 1" "sin_coeff 2 = 0" "sin_coeff 3 = - 1 / 6"
      by (simp_all add: sin_coeff_def fact_numeral)
    ultimately show ?thesis by simp
  qed
  moreover have "inverse (fact 4) * \<bar>7 / 12 :: real\<bar> ^ 4 = (7 / 12) ^ 4 / 24"
    by (simp add: fact_numeral)
  ultimately have "7 / 12 - (7 / 12) ^ 3 / 6 - (7 / 12) ^ 4 / 24 \<le> sin (7 / 12 :: real)"
    by linarith
  moreover have "1 / 2 < (7 / 12 :: real) - (7 / 12) ^ 3 / 6 - (7 / 12) ^ 4 / 24"
    by (simp add: power_divide)
  ultimately show ?thesis by linarith
qed

lemma pi_less_7_halves: "pi < 7 / 2"
proof -
  have "sin (pi / 6) < sin (7 / 12 :: real)"
    using sin_7_12 by (simp add: sin_30)
  moreover have "- (pi / 2) \<le> pi / 6" "pi / 6 \<le> pi / 2" "- (pi / 2) \<le> 7 / 12" "7 / 12 \<le> pi / 2"
    using pi_ge_two by simp_all
  ultimately have "pi / 6 < 7 / 12"
    by (simp add: sin_mono_less_eq)
  then show ?thesis by simp
qed

lemma floor_2pi_1: "floor_2pi (Suc 0) = 6"
proof -
  have "\<lfloor>2 * pi\<rfloor> = 6"
    using pi_ge_3 pi_less_7_halves by (intro floor_unique) auto
  then show ?thesis by (simp add: floor_2pi_def)
qed

lemma floor_2pi_pos: "0 < k \<Longrightarrow> 6 \<le> floor_2pi k"
proof -
  assume "0 < k"
  then have "1 \<le> real k" by simp
  then have "6 \<le> 2 * pi * real k"
  proof -
    have "6 * 1 \<le> (2 * pi) * real k"
      using pi_ge_3 \<open>1 \<le> real k\<close> by (intro mult_mono) simp_all
    then show ?thesis by simp
  qed
  then have "6 \<le> \<lfloor>2 * pi * real k\<rfloor>" by (simp add: le_floor_iff)
  then show ?thesis unfolding floor_2pi_def by linarith
qed

lemma floor_2pi_0: "floor_2pi 0 = 0"
  by (simp add: floor_2pi_def)

lemma min_floor_2pi: "0 < k \<Longrightarrow> m \<le> 6 \<Longrightarrow> min m (floor_2pi k) = m"
  using floor_2pi_pos [of k] by simp

subsection \<open>Seeding positions\<close>

lemma circle_inv_initial: "circle_inv len (0, 0, 0, 0)"
  by (simp add: circle_inv_def floor_2pi_0)

lemma next_circle_on_ring:
  assumes inv: "circle_inv len (circNum, phi, circumference, i)" and i: "i < len"
  shows "on_ring len i (next_circle len (circNum, phi, circumference, i))"
proof (cases "phi = circumference")
  case True
  from inv True have i_eq: "i = ring_start circNum + circumference"
    and c_eq: "circumference = min (len - ring_start circNum) (floor_2pi circNum)"
    unfolding circle_inv_def by auto
  from i i_eq have "circumference < len - ring_start circNum" by linarith
  with c_eq have "circumference = floor_2pi circNum" by linarith
  with i_eq have start: "i = ring_start (Suc circNum)" by simp
  have "6 \<le> floor_2pi (Suc circNum)" by (rule floor_2pi_pos) simp
  with i have "0 < min (len - i) (floor_2pi (Suc circNum))" by simp
  with start True show ?thesis
    by (simp add: next_circle_def on_ring_def)
next
  case False
  from inv have i_eq: "i = ring_start circNum + phi"
    and c_eq: "circumference = min (len - ring_start circNum) (floor_2pi circNum)"
    and le: "phi \<le> circumference"
    unfolding circle_inv_def by blast+
  from False le have lt: "phi < circumference" by simp
  have "circNum \<noteq> 0"
  proof
    assume "circNum = 0"
    with c_eq have "circumference = 0" by (simp add: floor_2pi_0)
    with lt show False by simp
  qed
  then have "1 \<le> circNum" by simp
  moreover have "next_circle len (circNum, phi, circumference, i) = (circNum, phi, circumference)"
    using False by (simp add: next_circle_def)
  ultimately show ?thesis
    unfolding on_ring_def using i_eq c_eq lt by simp
qed

lemma next_circle_inv:
  assumes "on_ring len i (k, p, n)"
  shows "circle_inv len (k, p + 1, n, i + 1)"
  using assms unfolding on_ring_def circle_inv_def by auto

lemma circle_loop_positions:
  assumes "circle_inv len (circNum, phi, circumference, i)"
    and "i + length rest = len"
    and "distinct rest"
  shows "(\<forall>j < length rest. \<exists>c. on_ring len (i + j) c \<and>
            n_onMountPosition (node_at (circle_loop len position (circNum, phi, circumference, i) rest h) (rest ! j)) =
              Some (mount_position position c) \<and>
            n_mounted (node_at (circle_loop len position (circNum, phi, circumference, i) rest h) (rest ! j))) \<and>
         (\<forall>r. r \<notin> set rest \<longrightarrow>
            node_at (circle_loop len position (circNum, phi, circumference, i) rest h) r = node_at h r)"
  using assms
proof (induction rest arbitrary: circNum phi circumference i h)
  case Nil
  then show ?case by simp
next
  case (Cons node rest)
  obtain k p n where nc: "next_circle len (circNum, phi, circumference, i) = (k, p, n)"
    by (cases "next_circle len (circNum, phi, circumference, i)")
  from Cons.prems(2) have i: "i < len" by simp
  have ring: "on_ring len i (k, p, n)"
    using next_circle_on_ring [OF Cons.prems(1) i] nc by simp
  let ?h' = "h\<lparr>node_at := (node_at h)(node := (node_at h node)
                \<lparr>n_mounted := True, n_onMountPosition := Some (mount_position position (k, p, n))\<rparr>)\<rparr>"
  have loop: "circle_loop len position (circNum, phi, circumference, i) (node # rest) h =
              circle_loop len position (k, p + 1, n, i + 1) rest ?h'"
    by (simp add: nc)
  have IH: "(\<forall>j < length rest. \<exists>c. on_ring len (i + 1 + j) c \<and>
            n_onMountPosition (node_at (circle_loop len position (k, p + 1, n, i + 1) rest ?h') (rest ! j)) =
              Some (mount_position position c) \<and>
            n_mounted (node_at (circle_loop len position (k, p + 1, n, i + 1) rest ?h') (rest ! j))) \<and>
         (\<forall>r. r \<notin> set rest \<longrightarrow>
            node_at (circle_loop len position (k, p + 1, n, i + 1) rest ?h') r = node_at ?h' r)"
  proof (rule Cons.IH)
    show "circle_inv len (k, p + 1, n, i + 1)" by (rule next_circle_inv [OF ring])
    show "i + 1 + length rest = len" using Cons.prems(2) by simp
    show "distinct rest" using Cons.prems(3) by simp
  qed
  have fresh: "node \<notin> set rest" using Cons.prems(3) by simp
  show ?case
    unfolding loop
  proof (intro conjI allI impI)
    fix j
    assume j: "j < length (node # rest)"
    show "\<exists>c. on_ring len (i + j) c \<and>
            n_onMountPosition (node_at (circle_loop len position (k, p + 1, n, i + 1) rest ?h') ((node # rest) ! j)) =
              Some (mount_position position c) \<and>
            n_mounted (node_at (circle_loop len position (k, p + 1, n, i + 1) rest ?h') ((node # rest) ! j))"
    proof (cases j)
      case 0
      from IH fresh have "node_at (circle_loop len position (k, p + 1, n, i + 1) rest ?h') node = node_at ?h' node"
        by blast
      with 0 ring show ?thesis by (intro exI [of _ "(k, p, n)"]) simp
    next
      case (Suc j')
      with j have "j' < length rest" by simp
      with IH obtain c where "on_ring len (i + 1 + j') c"
        and "n_onMountPosition (node_at (circle_loop len position (k, p + 1, n, i + 1) rest ?h') (rest ! j')) =
              Some (mount_position position c)"
        and "n_mounted (node_at (circle_loop len position (k, p + 1, n, i + 1) rest ?h') (rest ! j'))"
        by blast
      with Suc show ?thesis by (intro exI [of _ c]) simp
    qed
  next
    fix r
    assume "r \<notin> set (node # rest)"
    then have "r \<notin> set rest" and "r \<noteq> node" by simp_all
    with IH show "node_at (circle_loop len position (k, p + 1, n, i + 1) rest ?h') r = node_at h r"
      by simp
  qed
qed

text \<open>
  Claim C4, as amended. \<open>circleLayout\<close> has no circle \<open>0\<close>: for distinct nodes, node
  \<open>j\<close> is put on a circle \<open>k \<ge> 1\<close>, as the \<open>p\<close>-th of its \<open>n\<close> nodes, where circle
  \<open>k\<close> starts at node \<open>ring_start k\<close> and holds \<open>n = min (remaining, floor (2 pi k))\<close>
  nodes; its position is at distance \<open>100 k\<close> from the anchor at the angle
  \<open>2 pi p / n\<close>, and it is marked mounted.
\<close>

theorem circleLayout_rings:
  assumes "distinct nodes" and "j < length nodes"
  shows "\<exists>k p n. 1 \<le> k \<and> j = ring_start k + p \<and>
           n = min (length nodes - ring_start k) (floor_2pi k) \<and> p < n \<and>
           n_mounted (node_at (circleLayout h nodes position) (nodes ! j)) \<and>
           n_onMountPosition (node_at (circleLayout h nodes position) (nodes ! j)) =
             Some (fst position + 100 * real k * cos (2 * pi * real p / real n),
                   snd position + 100 * real k * sin (2 * pi * real p / real n))"
proof -
  from circle_loop_positions [OF circle_inv_initial _ assms(1), of "length nodes" position h] assms(2)
  obtain c where "on_ring (length nodes) j c"
    and "n_onMountPosition (node_at (circleLayout h nodes position) (nodes ! j)) = Some (mount_position position c)"
    and "n_mounted (node_at (circleLayout h nodes position) (nodes ! j))"
    unfolding circleLayout_def by auto
  then show ?thesis
    by (cases c) (auto simp: on_ring_def mount_position_def)
qed

text \<open>
  A witness for C4: the last of seven nodes.
\<close>

theorem circleLayout_rings_witness:
  "distinct [0, 1, 2, 3, 4, 5, 6 :: nat] \<and> (6 :: nat) < length [0, 1, 2, 3, 4, 5, 6 :: nat] \<and>
   (\<exists>k p n. 1 \<le> k \<and> (6 :: nat) = ring_start k + p \<and>
      n = min (length [0, 1, 2, 3, 4, 5, 6 :: nat] - ring_start k) (floor_2pi k) \<and> p < n \<and>
      n_mounted (node_at (circleLayout (example_heap []) [0, 1, 2, 3, 4, 5, 6] (0, 0))
                   ([0, 1, 2, 3, 4, 5, 6] ! 6)) \<and>
      n_onMountPosition (node_at (circleLayout (example_heap []) [0, 1, 2, 3, 4, 5, 6] (0, 0))
                           ([0, 1, 2, 3, 4, 5, 6] ! 6)) =
        Some (fst (0 :: real, 0 :: real) + 100 * real k * cos (2 * pi * real p / real n),
              snd (0 :: real, 0 :: real) + 100 * real k * sin (2 * pi * real p / real n)))"
proof -
  have d: "distinct [0, 1, 2, 3, 4, 5, 6 :: nat]" by simp
  have l: "(6 :: nat) < length [0, 1, 2, 3, 4, 5, 6 :: nat]" by simp
  show ?thesis
    by (intro conjI d l circleLayout_rings [OF d l])
qed

text \<open>
  Claim C4 as stated fails: of seven nodes seeded around \<open>(0, 0)\<close> the first is put at
  \<open>(100, 0)\<close>, not at the anchor, and the seventh at \<open>(200, 0)\<close>, on the second circle.
\<close>

theorem circleLayout_anchor_counterexample:
  "n_onMountPosition (node_at (circleLayout (example_heap []) [0, 1, 2, 3, 4, 5, 6] (0, 0)) 0) =
     Some (100, 0) \<and>
   n_onMountPosition (node_at (circleLayout (example_heap []) [0, 1, 2, 3, 4, 5, 6] (0, 0)) 0) \<noteq>
     Some (0, 0) \<and>
   n_onMountPosition (node_at (circleLayout (example_heap []) [0, 1, 2, 3, 4, 5, 6] (0, 0)) 6) =
     Some (200, 0)"
  by (simp add: circleLayout_def next_circle_def mount_position_def floor_2pi_1 min_floor_2pi
      example_defs)

subsection \<open>Restoring the options\<close>

text \<open>
  Claim C9, as amended. \<open>restoreFromObject\<close> writes every property of the object over
  the options, whether the interface knows it or not, and leaves every other property as it
  was: the properties afterwards are those of the options before and those of the object.
\<close>

theorem restoreFromObject_merges:
  "options (restoreFromObject st object) k = (case object k of Some v \<Rightarrow> Some v | None \<Rightarrow> options st k) \<and>
   dom (options (restoreFromObject st object)) = dom (options st) \<union> dom object"
  by (auto simp: restoreFromObject_def map_add_def split: option.splits)

text \<open>
  Claim C9 as stated fails: a property \<open>zoom\<close> of the restored object is not ignored;
  it is a property of the options afterwards, which then hold more than the recognized
  fields.
\<close>

theorem restoreFromObject_unknown_counterexample:
  "options (restoreFromObject (new_ColaLayout [] [] False) [''zoom'' \<mapsto> JNum 2]) ''zoom'' = Some (JNum 2) \<and>
   ''zoom'' \<notin> recognized_options \<and>
   \<not> dom (options (restoreFromObject (new_ColaLayout [] [] False) [''zoom'' \<mapsto> JNum 2])) \<subseteq> recognized_options"
proof -
  have a: "options (restoreFromObject (new_ColaLayout [] [] False) [''zoom'' \<mapsto> JNum 2]) ''zoom'' = Some (JNum 2)"
    by (simp add: restoreFromObject_def)
  have b: "''zoom'' \<notin> recognized_options"
    by (simp add: recognized_options_def)
  from a have "''zoom'' \<in> dom (options (restoreFromObject (new_ColaLayout [] [] False) [''zoom'' \<mapsto> JNum 2]))"
    by blast
  with a b show ?thesis by blast
qed

subsection \<open>What executeLayout makes\<close>

lemma log_call_fields [simp]:
  "isActive (log_call c st) = isActive st"
  "options (log_call c st) = options st"
  "compactMode (log_call c st) = compactMode st"
  "layoutAnimation (log_call c st) = layoutAnimation st"
  "layouts (log_call c st) = layouts st"
  "engine_log (log_call c st) = engine_log st @ [c]"
  "cy_elements (log_call c st) = cy_elements st"
  "cy_nodes (log_call c st) = cy_nodes st"
  "constraintRulesLoaded (log_call c st) = constraintRulesLoaded st"
  by (simp_all add: log_call_def)

lemma set_run_state_length: "length (set_run_state s r ls) = length ls"
  by (simp add: set_run_state_def)

lemma stopLayout_length: "length (layouts (stopLayout st)) = length (layouts st)"
  by (simp add: stopLayout_def set_run_state_length split: option.splits)

lemma executeLayout_last:
  "last (layouts (executeLayout st collection fixed)) =
     \<lparr>l_collection = collection, l_animate = options st ''animate'',
      l_fixed = (case fixed of None \<Rightarrow> {} | Some f \<Rightarrow> f),
      l_nodeSpacing = options st ''nodeSpacing'', l_edgeLength = options st ''edgeLength'',
      l_state = Running\<rparr>"
  by (simp add: executeLayout_def Let_def set_run_state_def stopLayout_def last_list_update
      split: option.splits)

lemma executeLayout_layouts:
  "layouts (executeLayout st collection fixed) =
     layouts (stopLayout st) @
       [\<lparr>l_collection = collection, l_animate = options st ''animate'',
         l_fixed = (case fixed of None \<Rightarrow> {} | Some f \<Rightarrow> f),
         l_nodeSpacing = options st ''nodeSpacing'', l_edgeLength = options st ''edgeLength'',
         l_state = Running\<rparr>]"
  by (simp add: executeLayout_def Let_def set_run_state_def stopLayout_def split: option.splits)

lemma executeLayout_length:
  "length (layouts (executeLayout st collection fixed)) = Suc (length (layouts st))"
  by (simp add: executeLayout_layouts stopLayout_length)

lemma executeLayout_layoutAnimation:
  "layoutAnimation (executeLayout st collection fixed) = Some (length (layouts st))"
  by (simp add: executeLayout_def Let_def stopLayout_length)

lemmas layout_defs = example_layout_def example_selfOrGroup_def new_ColaLayout_def
  default_options_def activate_def restoreFromObject_def

subsection \<open>The fixed set of an expansion\<close>

lemma fold_insert_set: "fold (\<lambda>node s. insert node s) xs s = set xs \<union> s"
  by (induction xs arbitrary: s) auto

lemma fold_delete_set: "fold (\<lambda>node s. s - {f node}) xs s = s - f ` set xs"
  by (induction xs arbitrary: s) auto

lemma explicitlyFixed_eq:
  "truthy (options st ''expansionOnlyThose'') \<Longrightarrow>
   explicitlyFixed f st ex = set (cy_nodes st) - f ` set (ex_nodes ex) - {f (ex_parentNode ex)}"
  by (simp add: explicitlyFixed_def fold_insert_set fold_delete_set)

text \<open>
  Claim C5. When \<open>onExpansion\<close> resumes in an active layout object whose option
  \<open>expansionOnlyThose\<close> is set, the layout it runs is given as fixed set the ids of
  \<open>cy.nodes()\<close>, minus the \<open>selfOrGroup\<close> identifiers of the expansion's nodes, minus
  the \<open>selfOrGroup\<close> identifier of its parent node; the layout is over all elements and
  it runs.
\<close>

theorem onExpansion_fixed_set:
  assumes "isActive st" and "truthy (options st ''expansionOnlyThose'')"
  shows "l_fixed (last (layouts (onExpansion f st expansion))) =
           set (cy_nodes st) - f ` set (ex_nodes expansion) - {f (ex_parentNode expansion)} \<and>
         l_collection (last (layouts (onExpansion f st expansion))) = cy_elements st \<and>
         l_state (last (layouts (onExpansion f st expansion))) = Running"
  using assms by (simp add: onExpansion_def executeLayout_last explicitlyFixed_eq)

text \<open>
  A witness for C5: of the five nodes on the canvas, the anchor and the two expanded
  nodes are left out of the fixed set.
\<close>

theorem onExpansion_fixed_set_witness:
  "isActive example_layout \<and> truthy (options example_layout ''expansionOnlyThose'') \<and>
   l_fixed (last (layouts (onExpansion example_selfOrGroup example_layout
                             \<lparr>ex_nodes = [1, 2], ex_parentNode = 0\<rparr>))) = {''n1'', ''n2''}"
proof -
  have a: "isActive example_layout" by (simp add: layout_defs)
  have t: "truthy (options example_layout ''expansionOnlyThose'')" by (simp add: layout_defs)
  have "set (cy_nodes example_layout) -
          example_selfOrGroup ` set (ex_nodes \<lparr>ex_nodes = [1, 2], ex_parentNode = 0\<rparr>) -
          {example_selfOrGroup (ex_parentNode \<lparr>ex_nodes = [1, 2], ex_parentNode = 0\<rparr>)} =
        {''n1'', ''n2''}"
    by (auto simp: layout_defs)
  with onExpansion_fixed_set [OF a t, of example_selfOrGroup "\<lparr>ex_nodes = [1, 2], ex_parentNode = 0\<rparr>"] a t
  show ?thesis by simp
qed

subsection \<open>The fixed nodes of a layout\<close>

text \<open>
  Claim C6. For the layout that \<open>executeLayout\<close> makes, called with or without a fixed
  set, and whatever state \<open>s\<close> the layout object is in when the engine asks: a node is
  held fixed if and only if its id is in the fixed set, or compact mode is not active and
  the node is locked. So a locked node outside the fixed set is held fixed exactly when
  compact mode is not active.
\<close>

theorem extraLocked_predicate:
  "(extraLocked s (last (layouts (executeLayout st collection fixed))) node \<longleftrightarrow>
      cy_id node \<in> (case fixed of None \<Rightarrow> {} | Some f \<Rightarrow> f) \<or>
      (\<not> isCompactModeActive s \<and> cy_lockedForLayouts node)) \<and>
   (cy_lockedForLayouts node \<and> cy_id node \<notin> (case fixed of None \<Rightarrow> {} | Some f \<Rightarrow> f) \<longrightarrow>
      (extraLocked s (last (layouts (executeLayout st collection fixed))) node \<longleftrightarrow>
         \<not> isCompactModeActive s))"
  by (auto simp: extraLocked_def executeLayout_last)

text \<open>
  A witness for C6: the locked node \<open>n1\<close>, outside the fixed set, is not held fixed
  once compact mode has been entered, and is held fixed without compact mode.
\<close>

theorem extraLocked_predicate_witness:
  "cy_lockedForLayouts \<lparr>cy_id = ''n1'', cy_lockedForLayouts = True\<rparr> \<and>
   cy_id \<lparr>cy_id = ''n1'', cy_lockedForLayouts = True\<rparr> \<notin> (case Some {''n2''} of None \<Rightarrow> {} | Some f \<Rightarrow> f) \<and>
   \<not> extraLocked (snd (onCompactMode example_layout (Some [''n1'']) (Some [])))
       (last (layouts (executeLayout example_layout [''n1''] (Some {''n2''}))))
       \<lparr>cy_id = ''n1'', cy_lockedForLayouts = True\<rparr> \<and>
   extraLocked example_layout
     (last (layouts (executeLayout example_layout [''n1''] (Some {''n2''}))))
     \<lparr>cy_id = ''n1'', cy_lockedForLayouts = True\<rparr>"
proof -
  let ?n = "\<lparr>cy_id = ''n1'', cy_lockedForLayouts = True\<rparr>"
  have l: "cy_lockedForLayouts ?n" by simp
  have f: "cy_id ?n \<notin> (case Some {''n2''} of None \<Rightarrow> {} | Some f \<Rightarrow> f)" by simp
  have c: "isCompactModeActive (snd (onCompactMode example_layout (Some [''n1'']) (Some [])))"
    by (simp add: onCompactMode_def isCompactModeActive_def executeLayout_def stopLayout_def
        Let_def layout_defs getCollectionToAnimate_def split: option.splits)
  have n: "\<not> isCompactModeActive example_layout"
    by (simp add: isCompactModeActive_def layout_defs)
  from extraLocked_predicate [of "snd (onCompactMode example_layout (Some [''n1'']) (Some []))"
      example_layout "[''n1'']" "Some {''n2''}" ?n]
    extraLocked_predicate [of example_layout example_layout "[''n1'']" "Some {''n2''}" ?n]
    l f c n
  show ?thesis by blast
qed

subsection \<open>Dragging\<close>

text \<open>
  Claim C8, as amended. \<open>onDrag\<close> runs a layout over the collection to animate when
  \<open>doLayoutAfterReposition\<close> is set and either the drag ends, or it starts while
  \<open>animate\<close> is set and the constraint rules are not loaded. In every other case, and so
  whenever \<open>doLayoutAfterReposition\<close> is not set, it does nothing.
\<close>

theorem onDrag_layout_run:
  "(truthy (options st ''doLayoutAfterReposition'') \<and>
      (\<not> isStartNotEnd \<or> (truthy (options st ''animate'') \<and> \<not> constraintRulesLoaded st)) \<longrightarrow>
        onDrag st isStartNotEnd = executeLayout st (getCollectionToAnimate st) None \<and>
        length (layouts (onDrag st isStartNotEnd)) = Suc (length (layouts st)) \<and>
        l_collection (last (layouts (onDrag st isStartNotEnd))) = getCollectionToAnimate st \<and>
        l_state (last (layouts (onDrag st isStartNotEnd))) = Running) \<and>
   (\<not> (truthy (options st ''doLayoutAfterReposition'') \<and>
      (\<not> isStartNotEnd \<or> (truthy (options st ''animate'') \<and> \<not> constraintRulesLoaded st))) \<longrightarrow>
        onDrag st isStartNotEnd = st)"
proof -
  have "length (layouts (executeLayout st c f)) = Suc (length (layouts st))" for c f
    by (simp add: executeLayout_def Let_def set_run_state_length stopLayout_length)
  then show ?thesis
    by (auto simp: onDrag_def executeLayout_last)
qed

text \<open>
  A witness for C8: a drag starts with all three conditions met and a layout runs; a drag
  ends with \<open>doLayoutAfterReposition\<close> off and nothing happens.
\<close>

theorem onDrag_layout_run_witness:
  "truthy (options example_layout ''doLayoutAfterReposition'') \<and>
   truthy (options example_layout ''animate'') \<and>
   \<not> constraintRulesLoaded example_layout \<and>
   length (layouts (onDrag example_layout True)) = 1 \<and>
   l_collection (last (layouts (onDrag example_layout True))) =
     [''anchor'', ''n1'', ''n2'', ''new1'', ''new2'', ''e1''] \<and>
   l_state (last (layouts (onDrag example_layout True))) = Running \<and>
   onDrag (restoreFromObject example_layout [''doLayoutAfterReposition'' \<mapsto> JBool False]) False =
     restoreFromObject example_layout [''doLayoutAfterReposition'' \<mapsto> JBool False]"
proof -
  let ?off = "restoreFromObject example_layout [''doLayoutAfterReposition'' \<mapsto> JBool False]"
  have d: "truthy (options example_layout ''doLayoutAfterReposition'')"
    and a: "truthy (options example_layout ''animate'')"
    and c: "\<not> constraintRulesLoaded example_layout"
    and l: "layouts example_layout = []"
    and g: "getCollectionToAnimate example_layout = [''anchor'', ''n1'', ''n2'', ''new1'', ''new2'', ''e1'']"
    by (simp_all add: layout_defs getCollectionToAnimate_def)
  have off: "\<not> truthy (options ?off ''doLayoutAfterReposition'')"
    by (simp add: layout_defs)
  from onDrag_layout_run [of example_layout True] d a c
  have "length (layouts (onDrag example_layout True)) = Suc (length (layouts example_layout))"
    and "l_collection (last (layouts (onDrag example_layout True))) = getCollectionToAnimate example_layout"
    and "l_state (last (layouts (onDrag example_layout True))) = Running"
    by blast+
  moreover from onDrag_layout_run [of ?off False] off have "onDrag ?off False = ?off"
    by blast
  ultimately show ?thesis using d a c l g by simp
qed

text \<open>
  Claim C8 as stated fails: with \<open>doLayoutAfterReposition\<close> off, a drag that starts
  while \<open>animate\<close> is set and the constraint rules are not loaded runs no layout.
\<close>

theorem onDrag_start_counterexample:
  "truthy (options (restoreFromObject example_layout [''doLayoutAfterReposition'' \<mapsto> JBool False]) ''animate'') \<and>
   \<not> constraintRulesLoaded (restoreFromObject example_layout [''doLayoutAfterReposition'' \<mapsto> JBool False]) \<and>
   layouts (onDrag (restoreFromObject example_layout [''doLayoutAfterReposition'' \<mapsto> JBool False]) True) = [] \<and>
   onDrag (restoreFromObject example_layout [''doLayoutAfterReposition'' \<mapsto> JBool False]) True =
     restoreFromObject example_layout [''doLayoutAfterReposition'' \<mapsto> JBool False]"
  by (simp add: onDrag_def layout_defs)

subsection \<open>One layout at a time\<close>

lemma set_run_state_Nil: "set_run_state s r [] = []"
  by (simp add: set_run_state_def)

lemma states_set_run_state:
  "map l_state (set_run_state s r ls) = (map l_state ls)[r := s]"
  by (simp add: set_run_state_def map_update list_update_beyond)

lemma set_run_state_Stopped_elem:
  assumes "l \<in> set (set_run_state Stopped r ls)"
  shows "l_state l = Stopped \<or> l \<in> set ls"
proof (cases "r < length ls")
  case True
  with assms have "l \<in> insert ((ls ! r)\<lparr>l_state := Stopped\<rparr>) (set ls)"
    using set_update_subset_insert [of ls r "(ls ! r)\<lparr>l_state := Stopped\<rparr>"]
    by (auto simp: set_run_state_def)
  then show ?thesis by auto
next
  case False
  with assms show ?thesis by (simp add: set_run_state_def)
qed

lemma set_run_state_butlast:
  "butlast (set_run_state s r ls) = set_run_state s r (butlast ls) \<or>
   butlast (set_run_state s r ls) = butlast ls"
  by (auto simp: set_run_state_def butlast_list_update nth_butlast)

lemma butlast_Stopped:
  assumes "\<forall>l \<in> set (butlast ls). l_state l \<noteq> Running"
  shows "\<forall>l \<in> set (butlast (set_run_state Stopped r ls)). l_state l \<noteq> Running"
proof
  fix l
  assume l: "l \<in> set (butlast (set_run_state Stopped r ls))"
  from set_run_state_butlast [of Stopped r ls]
  have "l_state l = Stopped \<or> l \<in> set (butlast ls)"
  proof
    assume "butlast (set_run_state Stopped r ls) = set_run_state Stopped r (butlast ls)"
    with l show ?thesis by (simp add: set_run_state_Stopped_elem)
  next
    assume "butlast (set_run_state Stopped r ls) = butlast ls"
    with l show ?thesis by simp
  qed
  with assms show "l_state l \<noteq> Running" by auto
qed

lemma layout_inv_new: "layout_inv (new_ColaLayout elements nodes loaded)"
  by (simp add: layout_inv_def new_ColaLayout_def)

lemma layout_inv_fields:
  assumes "layoutAnimation st' = layoutAnimation st" and "layouts st' = layouts st"
  shows "layout_inv st' = layout_inv st"
  unfolding layout_inv_def assms ..

lemma layout_inv_set_Stopped:
  assumes "layout_inv st"
  shows "layout_inv (st\<lparr>layouts := set_run_state Stopped r (layouts st)\<rparr>)"
proof -
  from assms have "\<forall>l \<in> set (butlast (layouts st)). l_state l \<noteq> Running"
    by (simp add: layout_inv_def)
  then have "\<forall>l \<in> set (butlast (set_run_state Stopped r (layouts st))). l_state l \<noteq> Running"
    by (rule butlast_Stopped)
  moreover from assms have "case layoutAnimation st of
         None \<Rightarrow> set_run_state Stopped r (layouts st) = []
       | Some n \<Rightarrow> Suc n = length (set_run_state Stopped r (layouts st))"
    by (simp add: layout_inv_def set_run_state_length set_run_state_Nil split: option.splits)
  ultimately show ?thesis by (simp add: layout_inv_def split: option.splits)
qed

lemma layout_inv_log_call: "layout_inv (log_call c st) = layout_inv st"
  by (rule layout_inv_fields) simp_all

lemma layout_inv_stopLayout: "layout_inv st \<Longrightarrow> layout_inv (stopLayout st)"
  by (simp add: stopLayout_def layout_inv_set_Stopped layout_inv_log_call split: option.splits)

lemma stopLayout_all_stopped:
  assumes "layout_inv st" and "l \<in> set (layouts (stopLayout st))"
  shows "l_state l \<noteq> Running"
proof (cases "layoutAnimation st")
  case None
  with assms show ?thesis by (simp add: layout_inv_def stopLayout_def)
next
  case (Some r)
  with assms(1) have r: "Suc r = length (layouts st)"
    and old: "\<forall>l \<in> set (butlast (layouts st)). l_state l \<noteq> Running"
    by (simp_all add: layout_inv_def)
  from r have ne: "layouts st \<noteq> []" by auto
  from r have rb: "r = length (butlast (layouts st))" by simp
  have "layouts st = butlast (layouts st) @ [last (layouts st)]"
    using ne by simp
  then have "(layouts st)[r := (layouts st ! r)\<lparr>l_state := Stopped\<rparr>] =
             butlast (layouts st) @ [(layouts st ! r)\<lparr>l_state := Stopped\<rparr>]"
    using rb by (metis list_update_length)
  moreover have "r < length (layouts st)" using r by simp
  ultimately have "layouts (stopLayout st) =
                   butlast (layouts st) @ [(layouts st ! r)\<lparr>l_state := Stopped\<rparr>]"
    using Some by (simp add: stopLayout_def set_run_state_def)
  with assms(2) old show ?thesis by auto
qed

lemma layout_inv_executeLayout:
  assumes "layout_inv st"
  shows "layout_inv (executeLayout st collection fixed)"
  using stopLayout_all_stopped [OF assms]
  by (simp add: layout_inv_def executeLayout_layouts executeLayout_layoutAnimation stopLayout_length)

lemma stopLayout_log:
  "engine_log (stopLayout st) =
     engine_log st @ (case layoutAnimation st of None \<Rightarrow> [] | Some r \<Rightarrow> [StopCall r])"
  by (simp add: stopLayout_def split: option.splits)

lemma executeLayout_log:
  "engine_log (executeLayout st collection fixed) =
     engine_log st @ (case layoutAnimation st of None \<Rightarrow> [] | Some r \<Rightarrow> [StopCall r]) @
     [LayoutCall collection, RunCall (length (layouts st))]"
  by (simp add: executeLayout_def Let_def stopLayout_log stopLayout_length)

lemma executeLayout_frame:
  "options (executeLayout st collection fixed) = options st"
  "compactMode (executeLayout st collection fixed) = compactMode st"
  "cy_elements (executeLayout st collection fixed) = cy_elements st"
  "constraintRulesLoaded (executeLayout st collection fixed) = constraintRulesLoaded st"
  by (simp_all add: executeLayout_def Let_def stopLayout_def split: option.splits)

lemma replay_snoc: "replay (cs @ [c]) = apply_call c (replay cs)"
  by (simp add: replay_def)

lemma prefixes_snoc:
  assumes "\<forall>n. quiet (replay (take n cs))" and "quiet (replay (cs @ [c]))"
  shows "\<forall>n. quiet (replay (take n (cs @ [c])))"
proof
  fix n
  show "quiet (replay (take n (cs @ [c])))"
  proof (cases "n \<le> length cs")
    case True
    then have "take n (cs @ [c]) = take n cs" by simp
    with assms(1) show ?thesis by simp
  next
    case False
    then have "take n (cs @ [c]) = cs @ [c]" by simp
    with assms(2) show ?thesis by simp
  qed
qed

lemma prefixes_whole: "\<forall>n. quiet (replay (take n cs)) \<Longrightarrow> quiet (replay cs)"
  by (metis order_refl take_all)

lemma filter_update_Stopped:
  "length (filter (\<lambda>s. s = Running) (xs[r := Stopped])) \<le> length (filter (\<lambda>s. s = Running) xs)"
proof (induction xs arbitrary: r)
  case Nil
  then show ?case by simp
next
  case (Cons x xs)
  show ?case
  proof (cases r)
    case 0
    then show ?thesis by simp
  next
    case (Suc r')
    with Cons.IH [of r'] show ?thesis by simp
  qed
qed

lemma quiet_Stopped: "quiet xs \<Longrightarrow> quiet (xs[r := Stopped])"
  unfolding quiet_def using filter_update_Stopped [of xs r] by linarith

lemma log_inv_new: "log_inv (new_ColaLayout elements nodes loaded)"
  by (simp add: log_inv_def layout_inv_new) (simp add: new_ColaLayout_def replay_def quiet_def)

lemma log_inv_fields:
  assumes "layoutAnimation st' = layoutAnimation st" and "layouts st' = layouts st"
    and "engine_log st' = engine_log st"
  shows "log_inv st' = log_inv st"
  unfolding log_inv_def assms(2,3) layout_inv_fields [OF assms(1,2)] ..

lemma log_inv_stop:
  assumes inv: "log_inv st" and c: "\<And>xs. apply_call c xs = xs[r := Stopped]"
  shows "log_inv (log_call c (st\<lparr>layouts := set_run_state Stopped r (layouts st)\<rparr>))"
proof -
  from inv have li: "layout_inv st"
    and st: "map l_state (layouts st) = replay (engine_log st)"
    and pre: "\<forall>n. quiet (replay (take n (engine_log st)))"
    by (simp_all add: log_inv_def)
  have "layout_inv (log_call c (st\<lparr>layouts := set_run_state Stopped r (layouts st)\<rparr>))"
    using li by (simp add: layout_inv_log_call layout_inv_set_Stopped)
  moreover have rp: "replay (engine_log st @ [c]) = (map l_state (layouts st))[r := Stopped]"
    by (simp add: replay_snoc c st)
  moreover have "quiet (replay (engine_log st @ [c]))"
    unfolding rp st using prefixes_whole [OF pre] by (rule quiet_Stopped)
  ultimately show ?thesis
    using prefixes_snoc [OF pre] by (simp add: log_inv_def states_set_run_state)
qed

lemma log_inv_stopLayout: "log_inv st \<Longrightarrow> log_inv (stopLayout st)"
  by (simp add: stopLayout_def log_inv_stop split: option.splits)

lemma log_inv_executeLayout:
  assumes inv: "log_inv st"
  shows "log_inv (executeLayout st collection fixed)"
proof -
  let ?st1 = "stopLayout st"
  let ?r = "length (layouts ?st1)"
  let ?log1 = "engine_log ?st1"
  from inv have inv1: "log_inv ?st1" by (rule log_inv_stopLayout)
  then have s1: "map l_state (layouts ?st1) = replay ?log1"
    and pre1: "\<forall>n. quiet (replay (take n ?log1))"
    by (simp_all add: log_inv_def)
  from inv have li: "layout_inv st" by (simp add: log_inv_def)
  have none: "filter (\<lambda>s. s = Running) (replay ?log1) = []"
    unfolding s1 [symmetric] using stopLayout_all_stopped [OF li]
    by (auto simp: filter_empty_conv)
  have len: "length (replay ?log1) = ?r"
    unfolding s1 [symmetric] by simp
  have log: "engine_log (executeLayout st collection fixed) =
             (?log1 @ [LayoutCall collection]) @ [RunCall ?r]"
    by (simp add: executeLayout_log stopLayout_log stopLayout_length)
  have r1: "replay (?log1 @ [LayoutCall collection]) = replay ?log1 @ [Created]"
    by (simp add: replay_snoc)
  have r2: "replay ((?log1 @ [LayoutCall collection]) @ [RunCall ?r]) = replay ?log1 @ [Running]"
    unfolding replay_snoc [of "?log1 @ [LayoutCall collection]"] r1
    using len by (simp add: list_update_append)
  have q1: "quiet (replay (?log1 @ [LayoutCall collection]))"
    unfolding r1 by (simp add: quiet_def none)
  have q2: "quiet (replay ((?log1 @ [LayoutCall collection]) @ [RunCall ?r]))"
    unfolding r2 by (simp add: quiet_def none)
  have "\<forall>n. quiet (replay (take n (engine_log (executeLayout st collection fixed))))"
    unfolding log by (intro prefixes_snoc pre1 q1 q2)
  moreover have "map l_state (layouts (executeLayout st collection fixed)) =
                 replay (engine_log (executeLayout st collection fixed))"
    unfolding log r2 by (simp add: executeLayout_layouts s1)
  moreover have "layout_inv (executeLayout st collection fixed)"
    using li by (rule layout_inv_executeLayout)
  ultimately show ?thesis by (simp add: log_inv_def)
qed

lemma log_inv_setAreaForCompact: "log_inv (setAreaForCompact st b) = log_inv st"
  by (rule log_inv_fields) (simp_all add: setAreaForCompact_def)

lemma log_inv_compactMode: "log_inv (st\<lparr>compactMode := c\<rparr>) = log_inv st"
  by (rule log_inv_fields) simp_all

lemma log_inv_isActive: "log_inv (st\<lparr>isActive := c\<rparr>) = log_inv st"
  by (rule log_inv_fields) simp_all

lemma log_inv_options: "log_inv (st\<lparr>options := c\<rparr>) = log_inv st"
  by (rule log_inv_fields) simp_all

lemma log_inv_graph: "log_inv (st\<lparr>cy_elements := a, cy_nodes := b\<rparr>) = log_inv st"
  by (rule log_inv_fields) simp_all

lemma log_inv_loaded: "log_inv (st\<lparr>constraintRulesLoaded := c\<rparr>) = log_inv st"
  by (rule log_inv_fields) simp_all

lemma log_inv_onCompactMode:
  assumes "log_inv st"
  shows "log_inv (snd (onCompactMode st nodes edges))"
proof -
  have a: "log_inv (setAreaForCompact (stopLayout st) b)" for b
    using assms by (simp add: log_inv_setAreaForCompact log_inv_stopLayout)
  have b: "log_inv (if c then setAreaForCompact (stopLayout st) b else st)" for b c
    using a assms by simp
  show ?thesis
    unfolding onCompactMode_def Let_def
    by (simp add: log_inv_compactMode log_inv_executeLayout a b assms split: option.splits)
qed

lemma log_inv_deactivate: "log_inv st \<Longrightarrow> log_inv (deactivate st)"
  unfolding deactivate_def
  by (intro log_inv_stopLayout log_inv_onCompactMode) (simp add: log_inv_isActive)

lemma log_inv_step:
  assumes "log_inv st"
  shows "log_inv (step e st)"
proof (cases e)
  case Activate
  then show ?thesis using assms by (simp add: activate_def log_inv_isActive)
next
  case Deactivate
  then show ?thesis using assms by (simp add: log_inv_deactivate)
next
  case (OnDrag b)
  then show ?thesis using assms by (simp add: onDrag_def log_inv_executeLayout)
next
  case OnLockedChanged
  then show ?thesis using assms by (simp add: onLockedChanged_def log_inv_executeLayout)
next
  case Run
  then show ?thesis using assms by (simp add: run_def log_inv_executeLayout)
next
  case (OnCompactMode ns es)
  then show ?thesis using assms by (simp add: log_inv_onCompactMode)
next
  case (OnExpansion f ex)
  then show ?thesis using assms by (simp add: onExpansion_def log_inv_executeLayout)
next
  case OnGroupBroken
  then show ?thesis using assms by (simp add: onGroupBroken_def log_inv_executeLayout)
next
  case (RestoreFromObject obj)
  then show ?thesis using assms by (simp add: restoreFromObject_def log_inv_options)
next
  case (LayoutStopped r)
  then show ?thesis using assms by (simp add: log_inv_stop)
next
  case (GraphChanged a b)
  then show ?thesis using assms by (simp add: log_inv_graph)
next
  case (ConstraintRulesLoaded b)
  then show ?thesis using assms by (simp add: log_inv_loaded)
qed

lemma log_inv_reachable: "log_inv st \<Longrightarrow> log_inv (fold step evs st)"
  by (induction evs arbitrary: st) (simp_all add: log_inv_step)

text \<open>
  Claim C7. Whatever has happened to a layout object since it was made: after every
  call that has reached the engine, at most one layout runs, and the layouts are in the
  states the calls left them in. A call of \<open>executeLayout\<close> then reaches the engine as
  \<open>stop()\<close> on the previous layout, if there is one, then \<open>layout()\<close> and then
  \<open>run()\<close> on the new layout, in this order and nothing else; again at most one layout
  runs after each of these calls. Afterwards exactly one layout has been added, it is over
  the collection given and it runs, \<open>layoutAnimation\<close> refers to it, and no layout made
  before it runs.
\<close>

theorem one_layout_at_a_time:
  "(\<forall>n. length (filter (\<lambda>s. s = Running)
            (replay (take n (engine_log (fold step evs (new_ColaLayout elements nodes loaded)))))) \<le> 1) \<and>
   map l_state (layouts (fold step evs (new_ColaLayout elements nodes loaded))) =
     replay (engine_log (fold step evs (new_ColaLayout elements nodes loaded))) \<and>
   engine_log (executeLayout (fold step evs (new_ColaLayout elements nodes loaded)) collection fixed) =
     engine_log (fold step evs (new_ColaLayout elements nodes loaded)) @
     (case layoutAnimation (fold step evs (new_ColaLayout elements nodes loaded)) of
        None \<Rightarrow> []
      | Some r \<Rightarrow> [StopCall r]) @
     [LayoutCall collection, RunCall (length (layouts (fold step evs (new_ColaLayout elements nodes loaded))))] \<and>
   (\<forall>n. length (filter (\<lambda>s. s = Running)
            (replay (take n (engine_log (executeLayout (fold step evs (new_ColaLayout elements nodes loaded)) collection fixed))))) \<le> 1) \<and>
   map l_state (layouts (executeLayout (fold step evs (new_ColaLayout elements nodes loaded)) collection fixed)) =
     replay (engine_log (executeLayout (fold step evs (new_ColaLayout elements nodes loaded)) collection fixed)) \<and>
   length (filter (\<lambda>l. l_state l = Running)
             (layouts (fold step evs (new_ColaLayout elements nodes loaded)))) \<le> 1 \<and>
   layoutAnimation (executeLayout (fold step evs (new_ColaLayout elements nodes loaded)) collection fixed) =
     Some (length (layouts (fold step evs (new_ColaLayout elements nodes loaded)))) \<and>
   length (layouts (executeLayout (fold step evs (new_ColaLayout elements nodes loaded)) collection fixed)) =
     Suc (length (layouts (fold step evs (new_ColaLayout elements nodes loaded)))) \<and>
   l_state (last (layouts (executeLayout (fold step evs (new_ColaLayout elements nodes loaded)) collection fixed))) = Running \<and>
   l_collection (last (layouts (executeLayout (fold step evs (new_ColaLayout elements nodes loaded)) collection fixed))) = collection \<and>
   Running \<notin> set (map l_state (butlast (layouts (executeLayout (fold step evs (new_ColaLayout elements nodes loaded)) collection fixed))))"
proof -
  let ?st = "fold step evs (new_ColaLayout elements nodes loaded)"
  let ?st' = "executeLayout ?st collection fixed"
  have inv: "log_inv ?st"
    by (rule log_inv_reachable) (rule log_inv_new)
  then have inv': "log_inv ?st'"
    by (rule log_inv_executeLayout)
  from inv have a: "\<forall>n. length (filter (\<lambda>s. s = Running) (replay (take n (engine_log ?st)))) \<le> 1"
    and b: "map l_state (layouts ?st) = replay (engine_log ?st)"
    by (simp_all add: log_inv_def quiet_def)
  from inv' have c: "\<forall>n. length (filter (\<lambda>s. s = Running) (replay (take n (engine_log ?st')))) \<le> 1"
    and d: "map l_state (layouts ?st') = replay (engine_log ?st')"
    and li: "layout_inv ?st'"
    by (simp_all add: log_inv_def quiet_def)
  from a have "length (filter (\<lambda>s. s = Running) (replay (take (length (engine_log ?st)) (engine_log ?st)))) \<le> 1"
    by blast
  then have "length (filter (\<lambda>s. s = Running) (map l_state (layouts ?st))) \<le> 1"
    by (simp add: b)
  then have e: "length (filter (\<lambda>l. l_state l = Running) (layouts ?st)) \<le> 1"
    by (simp add: filter_map comp_def)
  from li have f: "Running \<notin> set (map l_state (butlast (layouts ?st')))"
    by (auto simp: layout_inv_def)
  show ?thesis
    by (intro conjI a b c d e f executeLayout_log executeLayout_layoutAnimation executeLayout_length)
      (simp_all add: executeLayout_last)
qed

text \<open>
  A witness for C7: after \<open>activate\<close>, \<open>run\<close> and the end of a drag, a third call of
  \<open>executeLayout\<close> has stopped each layout before it made and ran the next, and leaves
  two stopped layouts and one that runs.
\<close>

theorem one_layout_at_a_time_witness:
  "engine_log (executeLayout
                 (fold step [Activate, Run, OnDrag False] (new_ColaLayout [''n1''] [''n1''] False))
                 [''n1''] None) =
     [LayoutCall [''n1''], RunCall 0, StopCall 0, LayoutCall [''n1''], RunCall 1,
      StopCall 1, LayoutCall [''n1''], RunCall 2] \<and>
   map l_state (layouts (executeLayout
                           (fold step [Activate, Run, OnDrag False]
                              (new_ColaLayout [''n1''] [''n1''] False))
                           [''n1''] None)) =
     [Stopped, Stopped, Running]"
proof -
  let ?st = "fold step [Activate, Run, OnDrag False] (new_ColaLayout [''n1''] [''n1''] False)"
  have l: "layoutAnimation ?st = Some 1" and n: "length (layouts ?st) = 2"
    and g: "engine_log ?st = [LayoutCall [''n1''], RunCall 0, StopCall 0, LayoutCall [''n1''], RunCall 1]"
    by (simp_all add: activate_def run_def onDrag_def executeLayout_log executeLayout_layoutAnimation
        executeLayout_length executeLayout_frame getCollectionToAnimate_def new_ColaLayout_def
        default_options_def)
  from one_layout_at_a_time [of "[Activate, Run, OnDrag False]" "[''n1'']" "[''n1'']" False "[''n1'']" None]
  have "engine_log (executeLayout ?st [''n1''] None) =
          engine_log ?st @ (case layoutAnimation ?st of None \<Rightarrow> [] | Some r \<Rightarrow> [StopCall r]) @
          [LayoutCall [''n1''], RunCall (length (layouts ?st))]"
    and "map l_state (layouts (executeLayout ?st [''n1''] None)) =
          replay (engine_log (executeLayout ?st [''n1''] None))"
    by blast+
  then show ?thesis
    unfolding l n g by (simp add: replay_def)
qed

end
